theory Spec2Isabelle
  imports Main "HOL-Library.Word" "HOL-Library.Char_ord" "HOL-Library.List_Lexorder"
begin

unbundle bit_operations_syntax

section \<open>Python values\<close>

text \<open>
  A \<open>bytes\<close> object is a list of 8-bit words; indexing it yields an integer in
  \<open>0..255\<close>. A \<open>str\<close> is a \<open>string\<close>. Every place where the Python raises is a branch
  returning \<open>Inl\<close>.
\<close>

type_synonym byte = "8 word"

datatype py_error = IndexError | StructError | OSError | ValueError

text \<open>\<open>data[i]\<close> on \<open>bytes\<close>: a negative index counts from the end, and an index outside
  \<open>-len(data) .. len(data) - 1\<close> raises \<open>IndexError\<close>.\<close>

definition getitem :: "byte list \<Rightarrow> int \<Rightarrow> py_error + nat" where
  "getitem data i =
     (let n = int (length data)
      in if 0 \<le> i \<and> i < n then Inr (unat (data ! nat i))
         else if - n \<le> i \<and> i < 0 then Inr (unat (data ! nat (n + i)))
         else Inl IndexError)"

text \<open>\<open>data[a:b]\<close>: a negative bound counts from the end, both bounds are clipped to the
  buffer, and slicing never raises. \<open>pyslice\<close> is the slice for bounds that are not
  negative.\<close>

definition clip :: "nat \<Rightarrow> int \<Rightarrow> nat" where
  "clip n i = (if i < 0 then nat (int n + i) else min (nat i) n)"

definition pyslice_int :: "'a list \<Rightarrow> int \<Rightarrow> int \<Rightarrow> 'a list" where
  "pyslice_int data a b =
     (let a' = clip (length data) a; b' = clip (length data) b
      in take (b' - a') (drop a' data))"

definition pyslice :: "'a list \<Rightarrow> nat \<Rightarrow> nat \<Rightarrow> 'a list" where
  "pyslice data a b = take (b - a) (drop a data)"

text \<open>\<open>data[a:]\<close> and \<open>data[:b]\<close>, for bounds that are not negative, are \<open>drop a data\<close> and
  \<open>take b data\<close>.\<close>

subsection \<open>String methods\<close>

text \<open>
  Characters are the code points below 256. On that range \<open>str.isspace\<close> holds of
  U+0009..U+000D, U+001C..U+0020, U+0085 and U+00A0, and \<open>str.lower\<close> maps
  \<open>A..Z\<close> and U+00C0..U+00DE (except U+00D7) to the code point 32 above.
\<close>

definition isspace :: "char \<Rightarrow> bool" where
  "isspace c = (let n = (of_char c :: nat)
                in (9 \<le> n \<and> n \<le> 13) \<or> (28 \<le> n \<and> n \<le> 32) \<or> n = 133 \<or> n = 160)"

text \<open>The ASCII digits.\<close>

definition is_digit :: "char \<Rightarrow> bool" where
  "is_digit c = (48 \<le> (of_char c :: nat) \<and> (of_char c :: nat) \<le> 57)"

definition lower_char :: "char \<Rightarrow> char" where
  "lower_char c = (let n = (of_char c :: nat)
                   in if (65 \<le> n \<and> n \<le> 90) \<or> (192 \<le> n \<and> n \<le> 222 \<and> n \<noteq> 215)
                      then char_of (n + 32) else c)"

definition lower :: "string \<Rightarrow> string" where
  "lower s = map lower_char s"

text \<open>\<open>s.strip()\<close> and \<open>s.strip(chars)\<close>.\<close>

definition strip_where :: "(char \<Rightarrow> bool) \<Rightarrow> string \<Rightarrow> string" where
  "strip_where P s = rev (dropWhile P (rev (dropWhile P s)))"

definition strip :: "string \<Rightarrow> string" where
  "strip s = strip_where isspace s"

definition strip_chars :: "string \<Rightarrow> string \<Rightarrow> string" where
  "strip_chars chars s = strip_where (\<lambda>c. c \<in> set chars) s"

text \<open>\<open>sep.join(parts)\<close>.\<close>

fun join :: "string \<Rightarrow> string list \<Rightarrow> string" where
  "join sep [] = []"
| "join sep [x] = x"
| "join sep (x # y # ys) = x @ sep @ join sep (y # ys)"

subsection \<open>Library functions outside the repository\<close>

text \<open>
  Two library calls are taken as parameters: \<open>bytes.decode("utf-8", errors="ignore")\<close>,
  which never raises, and the text that \<open>socket.inet_ntop(AF_INET6, _)\<close> yields for a
  16-byte address.
\<close>

record pylib =
  utf8_ignore :: "byte list \<Rightarrow> string"
  ntop6 :: "byte list \<Rightarrow> string"

section \<open>dns\_middleman.py: decode\_dns\_name\<close>

text \<open>
  The \<open>while True\<close> loop over the locals \<open>labels\<close>, \<open>cursor\<close>, \<open>end_offset\<close>,
  \<open>jumped\<close> and \<open>seen_pointers\<close>; the result is their value when the loop is left.
  \<open>cursor\<close> and \<open>end_offset\<close> are Python integers: the function accepts any \<open>offset\<close>,
  and a negative cursor indexes the buffer from its end. \<open>seen_pointers\<close> is kept as the
  list of its elements in the order they were added.
\<close>

type_synonym dns_locals = "string list \<times> int \<times> int \<times> bool \<times> nat list"

function decode_loop ::
  "pylib \<Rightarrow> byte list \<Rightarrow> string list \<Rightarrow> int \<Rightarrow> int \<Rightarrow> bool \<Rightarrow> nat list
     \<Rightarrow> py_error + dns_locals" where
  "decode_loop lib data labels cursor end_offset jumped seen_pointers =
     (if cursor \<ge> int (length data) then Inr (labels, cursor, end_offset, jumped, seen_pointers)
      else case getitem data cursor of
        Inl e \<Rightarrow> Inl e
      | Inr len \<Rightarrow>
          if len = 0 then
            Inr (labels, cursor + 1, (if \<not> jumped then cursor + 1 else end_offset),
                 jumped, seen_pointers)
          else if len AND 0xC0 = 0xC0 then
            (if cursor + 1 \<ge> int (length data)
             then Inr (labels, cursor, end_offset, jumped, seen_pointers)
             else case getitem data (cursor + 1) of
               Inl e \<Rightarrow> Inl e
             | Inr lo \<Rightarrow>
                 let pointer = (push_bit 8 (len AND 0x3F)) OR lo in
                 if pointer \<in> set seen_pointers
                 then Inr (labels, cursor, end_offset, jumped, seen_pointers)
                 else decode_loop lib data labels (int pointer)
                        (if \<not> jumped then cursor + 2 else end_offset) True
                        (seen_pointers @ [pointer]))
          else if len AND 0xC0 \<noteq> 0 then
            Inr (labels, cursor, end_offset, jumped, seen_pointers)
          else
            let cursor1 = cursor + 1 in
            if cursor1 + int len > int (length data)
            then Inr (labels, cursor1, end_offset, jumped, seen_pointers)
            else
              let label = utf8_ignore lib (pyslice_int data cursor1 (cursor1 + int len));
                  cursor2 = cursor1 + int len
              in decode_loop lib data (labels @ [label]) cursor2
                   (if \<not> jumped then cursor2 else end_offset) jumped seen_pointers)"
  by pat_completeness auto

text \<open>Termination: a jump adds a new 14-bit pointer to \<open>seen_pointers\<close>, a label moves the cursor forward.\<close>

lemma pointer_bound:
  assumes "lo < 256"
  shows "(push_bit 8 ((len::nat) AND 0x3F)) OR lo < 16384"
proof -
  have a: "len AND 0x3F = take_bit 6 len"
    by (simp add: take_bit_eq_mask mask_eq_exp_minus_1)
  have b: "take_bit 14 lo = lo"
    using assms by (simp add: take_bit_nat_eq_self_iff)
  have "take_bit 14 ((push_bit 8 (len AND 0x3F)) OR lo) = (push_bit 8 (len AND 0x3F)) OR lo"
    unfolding a by (simp add: take_bit_or take_bit_push_bit b)
  then have "(push_bit 8 (len AND 0x3F)) OR lo < 2 ^ 14"
    by (simp only: take_bit_nat_eq_self_iff)
  then show ?thesis by simp
qed

lemma getitem_bound: "getitem data i = Inr b \<Longrightarrow> b < 256"
  using unsigned_less [of "data ! nat i", where 'a = nat]
        unsigned_less [of "data ! nat (int (length data) + i)", where 'a = nat]
  by (auto simp: getitem_def Let_def split: if_splits)

termination decode_loop
proof (relation "(\<lambda>(lib, data, labels, cursor, e, j, seen). card ({..<16384::nat} - set seen))
                 <*mlex*> measure (\<lambda>(lib, data, labels, cursor, e, j, seen).
                                     nat (int (length data) - cursor))",
       goal_cases)
  case 1
  show ?case by (simp add: wf_mlex)
next
  case (2 lib data labels cursor end_offset jumped seen_pointers len lo pointer)
  then have "lo < 256" by (simp add: getitem_bound)
  then have "pointer < 16384" using 2 pointer_bound by simp
  with 2 have "{..<16384} - set (seen_pointers @ [pointer]) \<subset> {..<16384} - set seen_pointers"
    by auto
  then have "card ({..<16384} - set (seen_pointers @ [pointer]))
               < card ({..<16384} - set seen_pointers)"
    by (intro psubset_card_mono) auto
  then show ?case by (simp add: mlex_less)
next
  case (3 lib data labels cursor end_offset jumped seen_pointers len cursor1 label)
  then show ?case by (auto intro!: mlex_leq)
qed

declare decode_loop.simps [simp del]

definition decode_dns_name :: "pylib \<Rightarrow> byte list \<Rightarrow> int \<Rightarrow> py_error + (string \<times> int)" where
  "decode_dns_name lib data offset =
     (case decode_loop lib data [] offset offset False [] of
        Inl e \<Rightarrow> Inl e
      | Inr (labels, cursor, end_offset, jumped, seen_pointers) \<Rightarrow>
          let name = lower (strip_chars ''.'' (join ''.'' (filter (\<lambda>part. part \<noteq> []) labels)))
          in Inr (name, if end_offset \<le> offset then cursor else end_offset))"

subsection \<open>The loop from a cursor that is not negative\<close>

text \<open>
  A cursor that is not negative stays so, and every index the loop reads is a plain
  position in the buffer. \<open>decode_loop_nat\<close> and \<open>decode_dns_name_nat\<close> are the loop and the
  function on natural numbers; \<open>decode_loop\<close> and \<open>decode_dns_name\<close> agree with them on
  every cursor and offset that is not negative (\<open>decode_loop_nonneg\<close>,
  \<open>decode_dns_name_nonneg\<close>), which is where the callers in this file use them.
\<close>

definition getitem_nat :: "byte list \<Rightarrow> nat \<Rightarrow> py_error + nat" where
  "getitem_nat data i = (if i < length data then Inr (unat (data ! i)) else Inl IndexError)"

type_synonym dns_locals_nat = "string list \<times> nat \<times> nat \<times> bool \<times> nat list"

function decode_loop_nat ::
  "pylib \<Rightarrow> byte list \<Rightarrow> string list \<Rightarrow> nat \<Rightarrow> nat \<Rightarrow> bool \<Rightarrow> nat list
     \<Rightarrow> py_error + dns_locals_nat" where
  "decode_loop_nat lib data labels cursor end_offset jumped seen_pointers =
     (if cursor \<ge> length data then Inr (labels, cursor, end_offset, jumped, seen_pointers)
      else case getitem_nat data cursor of
        Inl e \<Rightarrow> Inl e
      | Inr len \<Rightarrow>
          if len = 0 then
            Inr (labels, cursor + 1, (if \<not> jumped then cursor + 1 else end_offset),
                 jumped, seen_pointers)
          else if len AND 0xC0 = 0xC0 then
            (if cursor + 1 \<ge> length data
             then Inr (labels, cursor, end_offset, jumped, seen_pointers)
             else case getitem_nat data (cursor + 1) of
               Inl e \<Rightarrow> Inl e
             | Inr lo \<Rightarrow>
                 let pointer = (push_bit 8 (len AND 0x3F)) OR lo in
                 if pointer \<in> set seen_pointers
                 then Inr (labels, cursor, end_offset, jumped, seen_pointers)
                 else decode_loop_nat lib data labels pointer
                        (if \<not> jumped then cursor + 2 else end_offset) True
                        (seen_pointers @ [pointer]))
          else if len AND 0xC0 \<noteq> 0 then
            Inr (labels, cursor, end_offset, jumped, seen_pointers)
          else
            let cursor1 = cursor + 1 in
            if cursor1 + len > length data
            then Inr (labels, cursor1, end_offset, jumped, seen_pointers)
            else
              let label = utf8_ignore lib (pyslice data cursor1 (cursor1 + len));
                  cursor2 = cursor1 + len
              in decode_loop_nat lib data (labels @ [label]) cursor2
                   (if \<not> jumped then cursor2 else end_offset) jumped seen_pointers)"
  by pat_completeness auto

lemma getitem_nat_bound: "getitem_nat data i = Inr b \<Longrightarrow> b < 256"
  using unsigned_less [of "data ! i", where 'a = nat]
  by (auto simp: getitem_nat_def split: if_splits)

termination decode_loop_nat
proof (relation "(\<lambda>(lib, data, labels, cursor, e, j, seen). card ({..<16384::nat} - set seen))
                 <*mlex*> measure (\<lambda>(lib, data, labels, cursor, e, j, seen). length data - cursor)",
       goal_cases)
  case 1
  show ?case by (simp add: wf_mlex)
next
  case (2 lib data labels cursor end_offset jumped seen_pointers len lo pointer)
  then have "lo < 256" by (simp add: getitem_nat_bound)
  then have "pointer < 16384" using 2 pointer_bound by simp
  with 2 have "{..<16384} - set (seen_pointers @ [pointer]) \<subset> {..<16384} - set seen_pointers"
    by auto
  then have "card ({..<16384} - set (seen_pointers @ [pointer]))
               < card ({..<16384} - set seen_pointers)"
    by (intro psubset_card_mono) auto
  then show ?case by (simp add: mlex_less)
next
  case (3 lib data labels cursor end_offset jumped seen_pointers len cursor1 label)
  then show ?case by (auto intro!: mlex_leq)
qed

declare decode_loop_nat.simps [simp del]

definition decode_dns_name_nat :: "pylib \<Rightarrow> byte list \<Rightarrow> nat \<Rightarrow> py_error + (string \<times> nat)" where
  "decode_dns_name_nat lib data offset =
     (case decode_loop_nat lib data [] offset offset False [] of
        Inl e \<Rightarrow> Inl e
      | Inr (labels, cursor, end_offset, jumped, seen_pointers) \<Rightarrow>
          let name = lower (strip_chars ''.'' (join ''.'' (filter (\<lambda>part. part \<noteq> []) labels)))
          in Inr (name, if end_offset \<le> offset then cursor else end_offset))"


section \<open>dns\_middleman.py: extract\_query\_domain, extract\_answer\_ips\<close>

text \<open>\<open>struct.unpack\<close> with the big-endian formats \<open>!H\<close> and \<open>!HHIH\<close>; a buffer of the
  wrong size raises \<open>struct.error\<close>.\<close>

definition be_int :: "byte list \<Rightarrow> nat" where
  "be_int bs = foldl (\<lambda>acc b. acc * 256 + unat b) 0 bs"

definition unpack_H :: "byte list \<Rightarrow> py_error + nat" where
  "unpack_H b = (if length b = 2 then Inr (be_int b) else Inl StructError)"

definition unpack_HHIH :: "byte list \<Rightarrow> py_error + (nat \<times> nat \<times> nat \<times> nat)" where
  "unpack_HHIH b =
     (if length b = 10
      then Inr (be_int (pyslice b 0 2), be_int (pyslice b 2 4), be_int (pyslice b 4 8), be_int (pyslice b 8 10))
      else Inl StructError)"

text \<open>\<open>str(n)\<close> for \<open>n \<ge> 0\<close>, and \<open>socket.inet_ntoa\<close>, which raises \<open>OSError\<close> unless it
  is given exactly four bytes.\<close>

fun str_nat :: "nat \<Rightarrow> string" where
  "str_nat n = (if n < 10 then [char_of (48 + n)]
                else str_nat (n div 10) @ [char_of (48 + n mod 10)])"

definition inet_ntoa :: "byte list \<Rightarrow> py_error + string" where
  "inet_ntoa packed =
     (if length packed = 4 then Inr (join ''.'' (map (\<lambda>b. str_nat (unat b)) packed))
      else Inl OSError)"

definition inet_ntop_AF_INET6 :: "pylib \<Rightarrow> byte list \<Rightarrow> py_error + string" where
  "inet_ntop_AF_INET6 lib packed =
     (if length packed = 16 then Inr (ntop6 lib packed) else Inl ValueError)"

definition extract_query_domain :: "pylib \<Rightarrow> byte list \<Rightarrow> py_error + string option" where
  "extract_query_domain lib payload =
     (if length payload < 12 then Inr None
      else case unpack_H (pyslice payload 4 6) of
        Inl e \<Rightarrow> Inl e
      | Inr qdcount \<Rightarrow>
          if qdcount = 0 then Inr None
          else case decode_dns_name lib payload 12 of
            Inl e \<Rightarrow> Inl e
          | Inr (domain, _) \<Rightarrow> Inr (if domain \<noteq> [] then Some domain else None))"

text \<open>
  In \<open>extract_answer_ips\<close> the local \<open>offset\<close> starts at 12 and only grows, so it is kept
  as a natural number; it is handed to \<open>decode_dns_name\<close> as the integer it is, and the
  offset that comes back, which is not negative either (\<open>decode_dns_name_nonneg\<close>), is
  read as a natural number again.

  The loop over the question section; \<open>None\<close> is the early \<open>return []\<close>.
\<close>

fun question_loop :: "pylib \<Rightarrow> byte list \<Rightarrow> nat \<Rightarrow> nat \<Rightarrow> py_error + nat option" where
  "question_loop lib payload 0 offset = Inr (Some offset)"
| "question_loop lib payload (Suc n) offset =
     (case decode_dns_name lib payload (int offset) of
        Inl e \<Rightarrow> Inl e
      | Inr (_, end_offset) \<Rightarrow>
          let offset1 = nat end_offset in
          if offset1 + 4 > length payload then Inr None
          else question_loop lib payload n (offset1 + 4))"

text \<open>The loop over the answer section, with the set \<open>ips\<close>; it is left by \<open>break\<close> or when
  the range is exhausted.\<close>

fun answer_loop :: "pylib \<Rightarrow> byte list \<Rightarrow> nat \<Rightarrow> nat \<Rightarrow> string set \<Rightarrow> py_error + string set" where
  "answer_loop lib payload 0 offset ips = Inr ips"
| "answer_loop lib payload (Suc n) offset ips =
     (case decode_dns_name lib payload (int offset) of
        Inl e \<Rightarrow> Inl e
      | Inr (_, end_offset) \<Rightarrow>
          let offset1 = nat end_offset in
          if offset1 + 10 > length payload then Inr ips
          else case unpack_HHIH (pyslice payload offset1 (offset1 + 10)) of
            Inl e \<Rightarrow> Inl e
          | Inr (rtype, rclass, ttl, rdlen) \<Rightarrow>
              let offset2 = offset1 + 10 in
              if offset2 + rdlen > length payload then Inr ips
              else
                let rdata = pyslice payload offset2 (offset2 + rdlen);
                    offset3 = offset2 + rdlen
                in if rclass \<noteq> 1 then answer_loop lib payload n offset3 ips
                   else if rtype = 1 \<and> rdlen = 4 then
                     (case inet_ntoa rdata of
                        Inl e \<Rightarrow> Inl e
                      | Inr a \<Rightarrow> answer_loop lib payload n offset3 (insert a ips))
                   else if rtype = 28 \<and> rdlen = 16 then
                     (case inet_ntop_AF_INET6 lib rdata of
                        Inl e \<Rightarrow> Inl e
                      | Inr a \<Rightarrow> answer_loop lib payload n offset3 (insert a ips))
                   else answer_loop lib payload n offset3 ips)"

definition extract_answer_ips :: "pylib \<Rightarrow> byte list \<Rightarrow> py_error + string list" where
  "extract_answer_ips lib payload =
     (if length payload < 12 then Inr []
      else case unpack_H (pyslice payload 4 6) of
        Inl e \<Rightarrow> Inl e
      | Inr qdcount \<Rightarrow>
          (case unpack_H (pyslice payload 6 8) of
             Inl e \<Rightarrow> Inl e
           | Inr ancount \<Rightarrow>
               (case question_loop lib payload qdcount 12 of
                  Inl e \<Rightarrow> Inl e
                | Inr None \<Rightarrow> Inr []
                | Inr (Some offset) \<Rightarrow>
                    (case answer_loop lib payload ancount offset {} of
                       Inl e \<Rightarrow> Inl e
                     | Inr ips \<Rightarrow> Inr (sorted_list_of_set ips)))))"

section \<open>dns\_middleman.py: make\_servfail\<close>

definition make_servfail :: "byte list \<Rightarrow> byte list option" where
  "make_servfail query =
     (if length query < 12 then None
      else let qdcount = pyslice query 4 6;
               header = take 2 query @ [0x81, 0x82] @ qdcount @ [0x00, 0x00, 0x00, 0x00, 0x00, 0x00]
           in Some (header @ drop 12 query))"

section \<open>dns\_middleman.py: one datagram of udp\_loop\<close>

text \<open>
  The body of the receive loop after a datagram \<open>query\<close> has arrived. \<open>forwarded\<close> is
  what \<open>forward_udp\<close> returned (\<open>None\<close> after an \<open>OSError\<close>, a timeout included) and
  \<open>send_ok\<close> tells whether \<open>server.sendto\<close> succeeded. The result is the datagram sent
  to the client and the arguments of the \<open>record_event\<close> call, when they happen.
\<close>

definition udp_exchange ::
  "pylib \<Rightarrow> byte list \<Rightarrow> byte list option \<Rightarrow> bool
     \<Rightarrow> py_error + (byte list option \<times> (string \<times> string list) option)" where
  "udp_exchange lib query forwarded send_ok =
     (case extract_query_domain lib query of
        Inl e \<Rightarrow> Inl e
      | Inr d \<Rightarrow>
          let domain = (case d of None \<Rightarrow> ''unknown'' | Some name \<Rightarrow> name);
              response = (case forwarded of None \<Rightarrow> make_servfail query | Some r \<Rightarrow> Some r)
          in case response of
               None \<Rightarrow> Inr (None, None)
             | Some r \<Rightarrow>
                 if \<not> send_ok then Inr (None, None)
                 else case extract_answer_ips lib r of
                   Inl e \<Rightarrow> Inl e
                 | Inr ips \<Rightarrow> Inr (Some r, Some (domain, ips)))"

section \<open>dns\_middleman.py: record\_event\<close>

text \<open>
  The proxy state that \<open>record_event\<close> touches: the text written to the ordered log so
  far (\<open>None\<close> when the file is not open), the two per-domain histories and the counter.
  \<open>ts\<close> is what \<open>event_timestamp()\<close> returned.
\<close>

record middleman =
  ordered_fp :: "string option"
  domain_times :: "string \<Rightarrow> string list"
  domain_ips :: "string \<Rightarrow> string set"
  query_count :: nat

definition event_line :: "string \<Rightarrow> string \<Rightarrow> string list \<Rightarrow> string" where
  "event_line domain ts ips =
     (let ips_text = join '', '' ips
      in ''['' @ domain @ ''] @ ['' @ ts @ ''] using ['' @ ips_text @ '']'')"

definition record_event :: "middleman \<Rightarrow> string \<Rightarrow> string \<Rightarrow> string list \<Rightarrow> middleman" where
  "record_event m ts domain ips =
     (let line = event_line domain ts ips
      in m \<lparr> ordered_fp := map_option (\<lambda>text. text @ line @ [CHR 0x0A]) (ordered_fp m),
             domain_times := (domain_times m) (domain := domain_times m domain @ [ts]),
             domain_ips := (domain_ips m) (domain := domain_ips m domain \<union> set ips),
             query_count := query_count m + 1 \<rparr>)"

section \<open>youtube\_ip\_blocker.py: parsing a log line\<close>

text \<open>
  \<open>ORDERED_LINE_RE.match\<close>, as a matcher that reads the line from left to right. Each
  group \<open>[^\]]*\<close> is followed by a literal \<open>]\<close> and each \<open>\s*\<close> by a character that is
  not white space, so the regular expression matches in one way at most: a group is the
  text up to the next \<open>]\<close>, \<open>\s*\<close> the longest run of white space, and \<open>\s*$\<close> holds
  when only white space is left. The result is the three groups.
\<close>

definition expect :: "string \<Rightarrow> string \<Rightarrow> string option" where
  "expect lit s = (if take (length lit) s = lit then Some (drop (length lit) s) else None)"

definition skip_spaces :: "string \<Rightarrow> string" where
  "skip_spaces s = dropWhile isspace s"

definition bracket_group :: "string \<Rightarrow> (string \<times> string) option" where
  "bracket_group s =
     (case expect ''['' s of
        None \<Rightarrow> None
      | Some r \<Rightarrow>
          (case expect '']'' (dropWhile (\<lambda>c. c \<noteq> CHR '']'') r) of
             None \<Rightarrow> None
           | Some r' \<Rightarrow> Some (takeWhile (\<lambda>c. c \<noteq> CHR '']'') r, r')))"

definition ORDERED_LINE_RE_match :: "string \<Rightarrow> (string \<times> string \<times> string) option" where
  "ORDERED_LINE_RE_match s =
     (case bracket_group s of
        None \<Rightarrow> None
      | Some (domain, r1) \<Rightarrow>
          (case expect ''@'' (skip_spaces r1) of
             None \<Rightarrow> None
           | Some r2 \<Rightarrow>
               (case bracket_group (skip_spaces r2) of
                  None \<Rightarrow> None
                | Some (time, r3) \<Rightarrow>
                    (case expect ''using'' (skip_spaces r3) of
                       None \<Rightarrow> None
                     | Some r4 \<Rightarrow>
                         (case bracket_group (skip_spaces r4) of
                            None \<Rightarrow> None
                          | Some (ips, r5) \<Rightarrow>
                              if list_all isspace r5 then Some (domain, time, ips)
                              else None)))))"

text \<open>\<open>s.split(",")\<close>: the pieces between the commas, at least one.\<close>

fun split_on :: "char \<Rightarrow> string \<Rightarrow> string list" where
  "split_on sep [] = [[]]"
| "split_on sep (c # cs) =
     (if c = sep then [] # split_on sep cs
      else (case split_on sep cs of
              [] \<Rightarrow> [[c]]
            | p # ps \<Rightarrow> (c # p) # ps))"

text \<open>
  \<open>ipa\<close> stands for \<open>str(ipaddress.ip_address(token))\<close>, a function of the standard
  library: the canonical text of the address, or \<open>None\<close> where it raises \<open>ValueError\<close>.
\<close>

definition normalize_ip :: "(string \<Rightarrow> string option) \<Rightarrow> string \<Rightarrow> string option" where
  "normalize_ip ipa raw =
     (let token = strip raw
      in if token = [] then None else ipa token)"

text \<open>The loop over the parts, with the set \<open>seen\<close> and the list \<open>ips\<close>.\<close>

fun collect_ips ::
  "(string \<Rightarrow> string option) \<Rightarrow> string list \<Rightarrow> string set \<Rightarrow> string list \<Rightarrow> string list" where
  "collect_ips ipa [] seen ips = ips"
| "collect_ips ipa (part # parts) seen ips =
     (case normalize_ip ipa part of
        None \<Rightarrow> collect_ips ipa parts seen ips
      | Some ip \<Rightarrow>
          if ip \<noteq> [] \<and> ip \<notin> seen then collect_ips ipa parts (insert ip seen) (ips @ [ip])
          else collect_ips ipa parts seen ips)"

definition parse_ordered_line ::
  "(string \<Rightarrow> string option) \<Rightarrow> string \<Rightarrow> (string \<times> string \<times> string list) option" where
  "parse_ordered_line ipa line =
     (case ORDERED_LINE_RE_match (strip line) of
        None \<Rightarrow> None
      | Some (g_domain, g_time, g_ips) \<Rightarrow>
          let domain = strip_chars ''.'' (lower (strip g_domain));
              event_time = strip g_time;
              ips_raw = strip g_ips;
              ips = (if ips_raw \<noteq> [] then collect_ips ipa (split_on CHR '','' ips_raw) {} []
                     else [])
          in Some (domain, event_time, ips))"

definition build_target_domains :: "string \<Rightarrow> string set" where
  "build_target_domains target_domain =
     (let base = strip_chars ''.'' (lower target_domain)
      in if take 4 base \<noteq> ''www.'' then {base, ''www.'' @ base} else {base})"

definition is_target_domain :: "string \<Rightarrow> string set \<Rightarrow> bool" where
  "is_target_domain domain target_domains = (strip_chars ''.'' (lower domain) \<in> target_domains)"

section \<open>youtube\_ip\_blocker.py: BlockerState\<close>

text \<open>
  The two \<open>set\<close> objects that the main loop relates, \<open>youtube_ips\<close> and \<open>blocked_ips\<close>,
  live in a store: the state holds their references, \<open>update\<close> changes an object in
  place, \<open>set(...)\<close> allocates a new one. The other fields are never copied or shared and
  are kept as values. Paths are strings.
\<close>

type_synonym ref = nat

record store =
  objs :: "ref \<Rightarrow> string set"
  next_ref :: ref

definition alloc :: "store \<Rightarrow> string set \<Rightarrow> store \<times> ref" where
  "alloc h v = (h \<lparr> objs := (objs h) (next_ref h := v), next_ref := next_ref h + 1 \<rparr>, next_ref h)"

record youtube_event =
  ev_domain :: string
  ev_time :: string
  ev_ips :: "string list"

record BlockerState =
  target_domain :: string
  target_domains :: "string set"
  run_stamp :: string
  ordered_log :: string
  split_log :: "string option"
  intermediate_log :: string
  final_summary_json :: string
  final_summary_txt :: string
  anchor :: string
  label :: string
  consumed_bytes :: nat
  total_dns_events :: nat
  youtube_dns_query_seen :: bool
  youtube_dns_returned :: bool
  youtube_events :: "youtube_event list"
  youtube_ips :: ref
  blocked_ips :: ref
  observed_domains :: "string set"
  unblocked_domains :: "string set"
  cumulative_blocked_packets :: nat

text \<open>The constructor call in \<open>main\<close>: the fields with a default start at zero, false or
  empty, and each \<open>default_factory=set\<close> makes a set object of its own.\<close>

definition new_BlockerState ::
  "store \<Rightarrow> string \<Rightarrow> string \<Rightarrow> string \<Rightarrow> string option \<Rightarrow> string \<Rightarrow> string \<Rightarrow> string
     \<Rightarrow> BlockerState \<times> store" where
  "new_BlockerState h target stamp ordered split log_dir anchor_name label_name =
     (let (h1, r1) = alloc h {};
          (h2, r2) = alloc h1 {}
      in (\<lparr> target_domain = strip_chars ''.'' (lower target),
             target_domains = build_target_domains target,
             run_stamp = stamp,
             ordered_log = ordered,
             split_log = split,
             intermediate_log = log_dir @ ''/youtube_block_intermediate_'' @ stamp @ ''.json'',
             final_summary_json = log_dir @ ''/youtube_block_summary_'' @ stamp @ ''.json'',
             final_summary_txt = log_dir @ ''/youtube_block_summary_'' @ stamp @ ''.txt'',
             anchor = anchor_name,
             label = label_name,
             consumed_bytes = 0,
             total_dns_events = 0,
             youtube_dns_query_seen = False,
             youtube_dns_returned = False,
             youtube_events = [],
             youtube_ips = r1,
             blocked_ips = r2,
             observed_domains = {},
             unblocked_domains = {},
             cumulative_blocked_packets = 0 \<rparr>, h2))"

section \<open>youtube\_ip\_blocker.py: consume\_new\_events\<close>

text \<open>
  The text file object is the standard library's, and what it does is a parameter
  \<open>io\<close>. For the bytes of the log and a position, which is 0 or a value that \<open>f.tell()\<close>
  returned earlier, \<open>io log pos\<close> lists what the calls of \<open>f.readline()\<close> return one
  after the other once \<open>f.seek(pos)\<close> is done, each line with the value \<open>f.tell()\<close> has
  after it. The loop stops at the first empty line, which is how \<open>readline\<close> reports the
  end of the file. The position is whatever \<open>tell\<close> gives: the model does not assume that
  it counts bytes or characters.
\<close>

type_synonym text_layer = "byte list \<Rightarrow> nat \<Rightarrow> (string \<times> nat) list"

text \<open>The body of the loop from \<open>parsed = parse_ordered_line(line)\<close> on.\<close>

definition consume_line ::
  "(string \<Rightarrow> string option) \<Rightarrow> string \<Rightarrow> BlockerState \<times> store \<Rightarrow> BlockerState \<times> store" where
  "consume_line ipa line sh =
     (let (state, h) = sh in
      case parse_ordered_line ipa line of
        None \<Rightarrow> (state, h)
      | Some (domain, event_time, ips) \<Rightarrow>
          let state1 = state \<lparr> total_dns_events := total_dns_events state + 1,
                                observed_domains := insert domain (observed_domains state) \<rparr>
          in if is_target_domain domain (target_domains state1) then
               (state1 \<lparr> youtube_dns_query_seen := True,
                         youtube_dns_returned :=
                            (if ips \<noteq> [] then True else youtube_dns_returned state1),
                         youtube_events := youtube_events state1
                            @ [\<lparr> ev_domain = domain, ev_time = event_time, ev_ips = ips \<rparr>] \<rparr>,
                h \<lparr> objs := (objs h) (youtube_ips state1
                                        := objs h (youtube_ips state1) \<union> set ips) \<rparr>)
             else
               (state1 \<lparr> unblocked_domains := insert domain (unblocked_domains state1) \<rparr>, h))"

text \<open>The \<open>while True\<close> loop over the lines \<open>readline\<close> returns: it is left at an empty
  line, and otherwise \<open>consumed_bytes\<close> takes the value of \<open>f.tell()\<close> before the line is
  parsed.\<close>

fun consume_loop ::
  "(string \<Rightarrow> string option) \<Rightarrow> (string \<times> nat) list \<Rightarrow> BlockerState \<times> store
     \<Rightarrow> BlockerState \<times> store" where
  "consume_loop ipa [] sh = sh"
| "consume_loop ipa ((line, told) # later) sh =
     (if line = [] then sh
      else consume_loop ipa later
             (consume_line ipa line ((fst sh) \<lparr> consumed_bytes := told \<rparr>, snd sh)))"

text \<open>\<open>fs\<close> gives the bytes of the file at a path, \<open>None\<close> when it does not exist.\<close>

definition consume_new_events ::
  "text_layer \<Rightarrow> (string \<Rightarrow> string option) \<Rightarrow> (string \<Rightarrow> byte list option) \<Rightarrow> BlockerState \<times> store
     \<Rightarrow> BlockerState \<times> store" where
  "consume_new_events io ipa fs sh =
     (case fs (ordered_log (fst sh)) of
        None \<Rightarrow> sh
      | Some log \<Rightarrow> consume_loop ipa (io log (consumed_bytes (fst sh))) sh)"

section \<open>youtube\_ip\_blocker.py: the packet filter\<close>

text \<open>
  \<open>run_cmd\<close> runs \<open>pfctl\<close>, always with \<open>check=False\<close>. The world keeps the commands
  run so far, each with its arguments and its input text, and answers a command from that
  history; it also keeps the snapshots that \<open>write_json\<close> wrote, with their paths.
\<close>

record cmd_result =
  returncode :: int
  stdout :: string
  stderr :: string

type_synonym cmd = "string list \<times> string option"

record snapshot =
  snap_run_stamp :: string
  snap_target_domain :: string
  snap_target_domains :: "string list"
  snap_ordered_log :: string
  snap_split_log :: "string option"
  snap_total_dns_events :: nat
  snap_youtube_dns_query_seen :: bool
  snap_youtube_dns_returned :: bool
  snap_youtube_dns_events :: "youtube_event list"
  snap_youtube_ips :: "string list"
  snap_blocked_ips :: "string list"
  snap_observed_domains_count :: nat
  snap_observed_domains :: "string list"
  snap_unblocked_domains_count :: nat
  snap_unblocked_domains :: "string list"
  snap_pf_anchor :: string
  snap_pf_label :: string
  snap_pf_ready :: bool
  snap_pf_status :: string
  snap_blocked_packets_so_far :: nat

record world =
  pf_calls :: "cmd list"
  pf_reply :: "cmd list \<Rightarrow> cmd \<Rightarrow> cmd_result"
  written :: "(string \<times> snapshot) list"

definition run_cmd :: "world \<Rightarrow> string list \<Rightarrow> string option \<Rightarrow> cmd_result \<times> world" where
  "run_cmd w args input_text =
     (pf_reply w (pf_calls w) (args, input_text),
      w \<lparr> pf_calls := pf_calls w @ [(args, input_text)] \<rparr>)"

text \<open>\<open>a or b or c\<close> on strings, \<open>s.startswith(p)\<close> and \<open>sub in s\<close>.\<close>

definition or_else :: "string \<Rightarrow> string \<Rightarrow> string" where
  "or_else a b = (if a \<noteq> [] then a else b)"

definition startswith :: "string \<Rightarrow> string \<Rightarrow> bool" where
  "startswith s p = (take (length p) s = p)"

fun contains :: "string \<Rightarrow> string \<Rightarrow> bool" where
  "contains [] sub = (sub = [])"
| "contains (c # cs) sub = (startswith (c # cs) sub \<or> contains cs sub)"

definition ensure_pf_enabled :: "world \<Rightarrow> (bool \<times> string) \<times> world" where
  "ensure_pf_enabled w =
     (let (info, w1) = run_cmd w [''pfctl'', ''-s'', ''info''] None in
      if returncode info = 0 \<and> contains (stdout info) ''Status: Enabled''
      then ((True, ''pf already enabled''), w1)
      else
        let (enable, w2) = run_cmd w1 [''pfctl'', ''-E''] None in
        if returncode enable = 0
        then ((True, strip (or_else (strip (stdout enable))
                              (or_else (strip (stderr enable)) ''pf enabled''))), w2)
        else ((False, strip (or_else (strip (stderr enable))
                               (or_else (strip (stdout enable)) ''pfctl -E failed''))), w2))"

definition clear_anchor_rules :: "world \<Rightarrow> string \<Rightarrow> world" where
  "clear_anchor_rules w anchor_name =
     (let (_, w1) = run_cmd w [''pfctl'', ''-a'', anchor_name, ''-F'', ''rules''] None;
          (_, w2) = run_cmd w1 [''pfctl'', ''-a'', anchor_name, ''-F'', ''Tables''] None
      in w2)"

definition build_anchor_rules :: "string list \<Rightarrow> string \<Rightarrow> string" where
  "build_anchor_rules ips label_name =
     (let table_name = ''exp3_yt_block_ips'';
          joined = join '', '' ips
      in ''table <'' @ table_name @ ''> persist { '' @ joined @ '' }'' @ [CHR 0x0A]
         @ ''block drop out quick to <'' @ table_name @ ''> label '' @ [CHR 0x22] @ label_name
         @ [CHR 0x22] @ [CHR 0x0A])"

definition apply_anchor_rules ::
  "world \<Rightarrow> string \<Rightarrow> string set \<Rightarrow> string \<Rightarrow> (bool \<times> string) \<times> world" where
  "apply_anchor_rules w anchor_name ips label_name =
     (if ips = {} then
        ((True, ''cleared rules (no YouTube IPs yet)''), clear_anchor_rules w anchor_name)
      else
        let ordered_ips = sorted_list_of_set ips;
            rules = build_anchor_rules ordered_ips label_name;
            (proc, w1) = run_cmd w [''pfctl'', ''-a'', anchor_name, ''-f'', ''-''] (Some rules)
        in if returncode proc \<noteq> 0
           then ((False, strip (or_else (strip (stderr proc))
                                  (or_else (strip (stdout proc)) ''pfctl rule load failed''))), w1)
           else ((True, ''loaded '' @ str_nat (length ordered_ips) @ '' blocked IPs into ''
                          @ anchor_name), w1))"

text \<open>
  \<open>str.splitlines\<close>: on the code points below 256 a line ends at \<open>\n\<close>, \<open>\r\<close>,
  \<open>\r\n\<close>, U+000B, U+000C, U+001C..U+001E or U+0085, and a final line end adds no empty
  line.
\<close>

definition line_break :: "char \<Rightarrow> bool" where
  "line_break c = (let n = (of_char c :: nat)
                   in n = 10 \<or> n = 11 \<or> n = 12 \<or> n = 13 \<or> n = 28 \<or> n = 29 \<or> n = 30 \<or> n = 133)"

fun splitlines :: "string \<Rightarrow> string list" where
  "splitlines [] = []"
| "splitlines (c # cs) =
     (if c = CHR 0x0D then
        (case cs of
           [] \<Rightarrow> [[]]
         | d # cs' \<Rightarrow> if d = CHR 0x0A then [] # splitlines cs' else [] # splitlines cs)
      else if line_break c then [] # splitlines cs
      else (case splitlines cs of
              [] \<Rightarrow> [[c]]
            | l # ls \<Rightarrow> (c # l) # ls))"

text \<open>
  The regular expression \<open>Packets:\s*(\d+)\<close>: the word, white space, then the longest
  run of decimal digits, at least one. With \<open>re.IGNORECASE\<close> the word is read in any
  case, without it only as it is spelled. \<open>match_packets\<close> tries the expression at the
  start of the text and gives the number and the length of the match. \<open>search_packets\<close>
  is the \<open>re.search\<close> of the loop over the rule lines, which passes
  \<open>flags=re.IGNORECASE\<close>, followed by \<open>int(m.group(1))\<close>; \<open>findall_packets\<close> is the
  \<open>re.findall\<close> of the fallback, which passes no flag, with \<open>int\<close> applied to each
  match.
\<close>

definition int_of_digits :: "string \<Rightarrow> nat" where
  "int_of_digits ds = foldl (\<lambda>acc c. 10 * acc + (of_char c - 48)) 0 ds"

definition match_packets :: "bool \<Rightarrow> string \<Rightarrow> (nat \<times> nat) option" where
  "match_packets ignorecase s =
     (if (if ignorecase then lower (take 8 s) = ''packets:'' else take 8 s = ''Packets:'') then
        (let r = drop 8 s;
             spaces = takeWhile isspace r;
             digits = takeWhile is_digit (dropWhile isspace r)
         in if digits = [] then None
            else Some (int_of_digits digits, 8 + length spaces + length digits))
      else None)"

fun search_packets :: "string \<Rightarrow> nat option" where
  "search_packets [] = None"
| "search_packets (c # cs) =
     (case match_packets True (c # cs) of
        Some (v, _) \<Rightarrow> Some v
      | None \<Rightarrow> search_packets cs)"

text \<open>\<open>skip\<close> is the number of characters still covered by the last match.\<close>

fun findall_packets :: "nat \<Rightarrow> string \<Rightarrow> nat list" where
  "findall_packets skip [] = []"
| "findall_packets (Suc k) (c # cs) = findall_packets k cs"
| "findall_packets 0 (c # cs) =
     (case match_packets False (c # cs) of
        Some (v, len) \<Rightarrow> v # findall_packets (len - 1) cs
      | None \<Rightarrow> findall_packets 0 cs)"

text \<open>The loop over the lines of \<open>pfctl -vvs rules\<close>, with the locals \<open>packets_total\<close>,
  \<open>current_rule_matches_label\<close> and \<open>has_packet_data\<close>.\<close>

fun scan_rule_lines :: "string \<Rightarrow> string list \<Rightarrow> nat \<times> bool \<times> bool \<Rightarrow> nat \<times> bool \<times> bool" where
  "scan_rule_lines label_name [] acc = acc"
| "scan_rule_lines label_name (raw_line # raw_lines) (packets_total, current, has_packet_data) =
     (let line = strip raw_line;
          current1 = (if startswith line ''block'' then contains line label_name else current)
      in if \<not> current1 then
           scan_rule_lines label_name raw_lines (packets_total, current1, has_packet_data)
         else (case search_packets line of
                 Some v \<Rightarrow> scan_rule_lines label_name raw_lines (packets_total + v, current1, True)
               | None \<Rightarrow>
                   scan_rule_lines label_name raw_lines (packets_total, current1, has_packet_data)))"

definition read_blocked_packet_count :: "world \<Rightarrow> string \<Rightarrow> string \<Rightarrow> nat \<times> world" where
  "read_blocked_packet_count w anchor_name label_name =
     (let (proc, w1) = run_cmd w [''pfctl'', ''-a'', anchor_name, ''-vvs'', ''rules''] None in
      if returncode proc \<noteq> 0 then (0, w1)
      else
        let (packets_total, _, has_packet_data) =
              scan_rule_lines label_name (splitlines (stdout proc)) (0, False, False)
        in if has_packet_data then (packets_total, w1)
           else
             let (labels_proc, w2) =
                   run_cmd w1 [''pfctl'', ''-a'', anchor_name, ''-s'', ''labels''] None
             in if returncode labels_proc \<noteq> 0 then (0, w2)
                else if \<not> contains (stdout labels_proc) label_name then (0, w2)
                else (sum_list (findall_packets 0 (stdout labels_proc)), w2))"

section \<open>youtube\_ip\_blocker.py: the main loop\<close>

text \<open>\<open>build_snapshot\<close> without its time stamp, and \<open>write_json\<close>.\<close>

definition build_snapshot ::
  "BlockerState \<Rightarrow> store \<Rightarrow> nat \<Rightarrow> bool \<Rightarrow> string \<Rightarrow> snapshot" where
  "build_snapshot state h blocked_packets pf_ready last_pf_message =
     \<lparr> snap_run_stamp = run_stamp state,
       snap_target_domain = target_domain state,
       snap_target_domains = sorted_list_of_set (target_domains state),
       snap_ordered_log = ordered_log state,
       snap_split_log = split_log state,
       snap_total_dns_events = total_dns_events state,
       snap_youtube_dns_query_seen = youtube_dns_query_seen state,
       snap_youtube_dns_returned = youtube_dns_returned state,
       snap_youtube_dns_events = youtube_events state,
       snap_youtube_ips = sorted_list_of_set (objs h (youtube_ips state)),
       snap_blocked_ips = sorted_list_of_set (objs h (blocked_ips state)),
       snap_observed_domains_count = card (observed_domains state),
       snap_observed_domains = sorted_list_of_set (observed_domains state),
       snap_unblocked_domains_count = card (unblocked_domains state),
       snap_unblocked_domains = sorted_list_of_set (unblocked_domains state),
       snap_pf_anchor = anchor state,
       snap_pf_label = label state,
       snap_pf_ready = pf_ready,
       snap_pf_status = last_pf_message,
       snap_blocked_packets_so_far = blocked_packets \<rparr>"

definition write_json :: "world \<Rightarrow> string \<Rightarrow> snapshot \<Rightarrow> world" where
  "write_json w path payload = w \<lparr> written := written w @ [(path, payload)] \<rparr>"

text \<open>The body of \<open>if pf_ready and state.youtube_ips != state.blocked_ips\<close>; the last
  component is the new \<open>last_pf_message\<close>.\<close>

definition converge :: "BlockerState \<times> store \<times> world \<Rightarrow> BlockerState \<times> store \<times> world \<times> string" where
  "converge shw =
     (let (state, h, w) = shw;
          (n, w1) = read_blocked_packet_count w (anchor state) (label state);
          state1 = state \<lparr> cumulative_blocked_packets := cumulative_blocked_packets state + n \<rparr>;
          ((ok, msg), w2) = apply_anchor_rules w1 (anchor state1) (objs h (youtube_ips state1))
                              (label state1)
      in if ok then
           (let (h1, r) = alloc h (objs h (youtube_ips state1))
            in (state1 \<lparr> blocked_ips := r \<rparr>, h1, w2, msg))
         else (state1, h, w2, ''Failed to apply PF rules: '' @ msg))"

text \<open>One round of \<open>while not stop_event.is_set()\<close>, without the sleep. \<open>fs\<close> is the file
  system as the round finds it.\<close>

definition main_iteration ::
  "text_layer \<Rightarrow> (string \<Rightarrow> string option) \<Rightarrow> (string \<Rightarrow> byte list option) \<Rightarrow> bool
     \<Rightarrow> BlockerState \<times> store \<times> world \<times> string \<Rightarrow> BlockerState \<times> store \<times> world \<times> string" where
  "main_iteration io ipa fs pf_ready shwm =
     (let (state0, h0, w0, last_pf_message0) = shwm;
          (state1, h1) = consume_new_events io ipa fs (state0, h0);
          (state2, h2, w2, last_pf_message) =
            (if pf_ready \<and> objs h1 (youtube_ips state1) \<noteq> objs h1 (blocked_ips state1)
             then converge (state1, h1, w0)
             else (state1, h1, w0, last_pf_message0));
          (current_packets, w3) =
            (if pf_ready then read_blocked_packet_count w2 (anchor state2) (label state2)
             else (0, w2));
          snap = build_snapshot state2 h2 (cumulative_blocked_packets state2 + current_packets)
                   pf_ready last_pf_message
      in (state2, h2, write_json w3 (intermediate_log state2) snap, last_pf_message))"

section \<open>The main loop: what a round changes\<close>

text \<open>
  \<open>tail_frame\<close> relates the blocker state and the set objects before and after reading the
  log: the two references, the configuration and the packet total stay, every set object
  other than the target set stays as it is, and the target set only grows.
\<close>

definition tail_frame :: "BlockerState \<times> store \<Rightarrow> BlockerState \<times> store \<Rightarrow> bool" where
  "tail_frame sh sh' =
     (youtube_ips (fst sh') = youtube_ips (fst sh)
      \<and> blocked_ips (fst sh') = blocked_ips (fst sh)
      \<and> anchor (fst sh') = anchor (fst sh)
      \<and> label (fst sh') = label (fst sh)
      \<and> intermediate_log (fst sh') = intermediate_log (fst sh)
      \<and> ordered_log (fst sh') = ordered_log (fst sh)
      \<and> cumulative_blocked_packets (fst sh') = cumulative_blocked_packets (fst sh)
      \<and> next_ref (snd sh') = next_ref (snd sh)
      \<and> (\<forall>r. r \<noteq> youtube_ips (fst sh) \<longrightarrow> objs (snd sh') r = objs (snd sh) r)
      \<and> objs (snd sh) (youtube_ips (fst sh)) \<subseteq> objs (snd sh') (youtube_ips (fst sh)))"

text \<open>The commands that read the packet counters, and the commands that change the rules
  of the anchor.\<close>

definition stat_cmd :: "string \<Rightarrow> cmd \<Rightarrow> bool" where
  "stat_cmd anchor_name c =
     (fst c = [''pfctl'', ''-a'', anchor_name, ''-vvs'', ''rules'']
      \<or> fst c = [''pfctl'', ''-a'', anchor_name, ''-s'', ''labels''])"

definition reload_cmd :: "string \<Rightarrow> cmd \<Rightarrow> bool" where
  "reload_cmd anchor_name c =
     (fst c = [''pfctl'', ''-a'', anchor_name, ''-f'', ''-'']
      \<or> fst c = [''pfctl'', ''-a'', anchor_name, ''-F'', ''rules'']
      \<or> fst c = [''pfctl'', ''-a'', anchor_name, ''-F'', ''Tables''])"

text \<open>The outcome of \<open>apply_anchor_rules\<close> in a round that attempts a convergence, which
  runs after one read of the packet counters.\<close>

definition convergence_result :: "world \<Rightarrow> BlockerState \<Rightarrow> store \<Rightarrow> (bool \<times> string) \<times> world" where
  "convergence_result w state h =
     (let (n, w1) = read_blocked_packet_count w (anchor state) (label state)
      in apply_anchor_rules w1 (anchor state) (objs h (youtube_ips state)) (label state))"

definition convergence_ok :: "world \<Rightarrow> BlockerState \<Rightarrow> store \<Rightarrow> bool" where
  "convergence_ok w state h = fst (fst (convergence_result w state h))"

text \<open>
  What \<open>main\<close> keeps true of the two IP sets: they are two different allocated set
  objects, and the enforced set holds only addresses of the target set.
\<close>

definition blocker_inv :: "BlockerState \<times> store \<Rightarrow> bool" where
  "blocker_inv sh =
     (youtube_ips (fst sh) \<noteq> blocked_ips (fst sh)
      \<and> youtube_ips (fst sh) < next_ref (snd sh)
      \<and> blocked_ips (fst sh) < next_ref (snd sh)
      \<and> objs (snd sh) (blocked_ips (fst sh)) \<subseteq> objs (snd sh) (youtube_ips (fst sh)))"


section \<open>The wire format the codec is checked against\<close>

text \<open>
  The cursor holds a compression pointer when two bytes are left in the buffer and the
  first has its two top bits set; the pointer is the 14-bit value the loop computes.
\<close>

definition pointer_at :: "byte list \<Rightarrow> nat \<Rightarrow> nat option" where
  "pointer_at data cursor =
     (if cursor + 1 < length data \<and> unat (data ! cursor) AND 0xC0 = 0xC0
      then Some ((push_bit 8 (unat (data ! cursor) AND 0x3F)) OR unat (data ! (cursor + 1)))
      else None)"

text \<open>
  A DNS message as the specification describes it (RFC 1035): a 12-byte header with the
  ID, the flags and four 16-bit counts, then the questions, then the answer records, then
  whatever else the message carries. A name on the wire is a sequence of labels of 1 to 63
  bytes, each behind its length byte, closed by a zero byte or by a two-byte compression
  pointer. Numbers are big-endian.
\<close>

definition be16 :: "nat \<Rightarrow> byte list" where
  "be16 n = [of_nat (n div 256), of_nat (n mod 256)]"

definition be32 :: "nat \<Rightarrow> byte list" where
  "be32 n = [of_nat (n div 16777216), of_nat (n div 65536 mod 256),
             of_nat (n div 256 mod 256), of_nat (n mod 256)]"

datatype name_end = Root | Pointer byte byte

type_synonym wire_name = "byte list list \<times> name_end"

fun encode_labels :: "byte list list \<Rightarrow> byte list" where
  "encode_labels [] = []"
| "encode_labels (l # ls) = of_nat (length l) # l @ encode_labels ls"

text \<open>Labels of 1 to 63 bytes, and the name a list of labels spells: each label decoded,
  empty texts dropped, the rest joined by dots, dots stripped at both ends, lower case.\<close>

definition wf_labels :: "byte list list \<Rightarrow> bool" where
  "wf_labels ls = list_all (\<lambda>l. 1 \<le> length l \<and> length l \<le> 63) ls"

definition dotted_name :: "pylib \<Rightarrow> byte list list \<Rightarrow> string" where
  "dotted_name lib ls =
     lower (strip_chars ''.'' (join ''.'' (filter (\<lambda>part. part \<noteq> []) (map (utf8_ignore lib) ls))))"

fun encode_end :: "name_end \<Rightarrow> byte list" where
  "encode_end Root = [0]"
| "encode_end (Pointer hi lo) = [hi, lo]"

definition encode_name :: "wire_name \<Rightarrow> byte list" where
  "encode_name n = encode_labels (fst n) @ encode_end (snd n)"

fun wf_end :: "name_end \<Rightarrow> bool" where
  "wf_end Root = True"
| "wf_end (Pointer hi lo) = (unat hi AND 0xC0 = 0xC0)"

definition wf_name :: "wire_name \<Rightarrow> bool" where
  "wf_name n = (list_all (\<lambda>l. 1 \<le> length l \<and> length l \<le> 63) (fst n) \<and> wf_end (snd n))"

record question =
  q_name :: wire_name
  q_type :: nat
  q_class :: nat

definition encode_question :: "question \<Rightarrow> byte list" where
  "encode_question q = encode_name (q_name q) @ be16 (q_type q) @ be16 (q_class q)"

definition wf_question :: "question \<Rightarrow> bool" where
  "wf_question q = wf_name (q_name q)"

record rr =
  rr_name :: wire_name
  rr_type :: nat
  rr_class :: nat
  rr_ttl :: nat
  rr_data :: "byte list"

definition encode_rr :: "rr \<Rightarrow> byte list" where
  "encode_rr r = encode_name (rr_name r) @ be16 (rr_type r) @ be16 (rr_class r)
                   @ be32 (rr_ttl r) @ be16 (length (rr_data r)) @ rr_data r"

definition wf_rr :: "rr \<Rightarrow> bool" where
  "wf_rr r = (wf_name (rr_name r) \<and> rr_type r < 65536 \<and> rr_class r < 65536
                \<and> length (rr_data r) < 65536)"

text \<open>
  The message bytes: \<open>ancount\<close> is the answer count the header declares, \<open>answers\<close> the
  records that are there in full, \<open>rest\<close> the bytes behind them.
\<close>

record dns_message =
  msg_id :: nat
  msg_flags :: nat
  questions :: "question list"
  ancount :: nat
  nscount :: nat
  arcount :: nat
  answers :: "rr list"
  rest :: "byte list"

definition encode_message :: "dns_message \<Rightarrow> byte list" where
  "encode_message m =
     (be16 (msg_id m) @ be16 (msg_flags m) @ be16 (length (questions m)) @ be16 (ancount m)
        @ be16 (nscount m) @ be16 (arcount m))
     @ concat (map encode_question (questions m))
     @ concat (map encode_rr (answers m))
     @ rest m"

definition wf_message :: "dns_message \<Rightarrow> bool" where
  "wf_message m = (length (questions m) < 65536 \<and> ancount m < 65536
                     \<and> list_all wf_question (questions m) \<and> list_all wf_rr (answers m))"

text \<open>The text of the address a record carries: class IN and type A with four bytes of
  data (dotted quad), or class IN and type AAAA with sixteen.\<close>

definition rr_address :: "pylib \<Rightarrow> rr \<Rightarrow> string option" where
  "rr_address lib r =
     (if rr_class r = 1 \<and> rr_type r = 1 \<and> length (rr_data r) = 4
      then Some (join ''.'' (map (\<lambda>b. str_nat (unat b)) (rr_data r)))
      else if rr_class r = 1 \<and> rr_type r = 28 \<and> length (rr_data r) = 16
      then Some (ntop6 lib (rr_data r))
      else None)"

definition addresses :: "pylib \<Rightarrow> rr list \<Rightarrow> string set" where
  "addresses lib rs = set (List.map_filter (rr_address lib) rs)"

text \<open>
  The record that starts at \<open>offset\<close> would read past the end of the buffer: behind its
  name there are fewer than the ten bytes of type, class, TTL and data length, or fewer
  data bytes than the data length announces.
\<close>

definition reads_past_end :: "pylib \<Rightarrow> byte list \<Rightarrow> nat \<Rightarrow> bool" where
  "reads_past_end lib payload offset =
     (case decode_dns_name lib payload (int offset) of
        Inl e \<Rightarrow> False
      | Inr (_, end_offset) \<Rightarrow>
          let e = nat end_offset in
          e + 10 > length payload
          \<or> e + 10 + be_int (pyslice payload (e + 8) (e + 10)) > length payload)"

text \<open>The offset behind the last complete answer record, and the effect of one record on
  the set of addresses.\<close>

definition answers_end :: "dns_message \<Rightarrow> nat" where
  "answers_end m = 12 + length (concat (map encode_question (questions m)))
                      + length (concat (map encode_rr (answers m)))"

definition add_address :: "pylib \<Rightarrow> rr \<Rightarrow> string set \<Rightarrow> string set" where
  "add_address lib r ips = (case rr_address lib r of None \<Rightarrow> ips | Some a \<Rightarrow> insert a ips)"

section \<open>The event records that survive the round trip\<close>

text \<open>A string has clean edges for \<open>P\<close> when it neither starts nor ends with a character
  satisfying \<open>P\<close>: stripping such characters leaves it as it is.\<close>

definition clean_edges :: "(char \<Rightarrow> bool) \<Rightarrow> string \<Rightarrow> bool" where
  "clean_edges P s = (s = [] \<or> (\<not> P (hd s) \<and> \<not> P (last s)))"

text \<open>A domain in the form the parser produces: lower case, no white space and no dot at
  either end.\<close>

definition normal_domain :: "string \<Rightarrow> bool" where
  "normal_domain d = (lower d = d \<and> clean_edges isspace d \<and> clean_edges (\<lambda>c. c \<in> set ''.'') d)"

text \<open>An IP text that the parser reads back as it is: the normaliser returns it unchanged,
  and it has no white space at its ends, no comma and no closing bracket.\<close>

definition plain_ip :: "(string \<Rightarrow> string option) \<Rightarrow> string \<Rightarrow> bool" where
  "plain_ip ipa ip = (ipa ip = Some ip \<and> ip \<noteq> [] \<and> clean_edges isspace ip
                        \<and> CHR '','' \<notin> set ip \<and> CHR '']'' \<notin> set ip)"

text \<open>An instance of the normaliser that knows dotted-quad IPv4 addresses only: four
  decimal octets of at most three digits, without a leading zero, each at most 255.\<close>

definition octet_value :: "string \<Rightarrow> nat option" where
  "octet_value s =
     (if s \<noteq> [] \<and> list_all is_digit s \<and> length s \<le> 3 \<and> (length s > 1 \<longrightarrow> hd s \<noteq> CHR ''0'')
      then (let v = foldl (\<lambda>acc c. 10 * acc + (of_char c - 48)) 0 s
            in if v \<le> 255 then Some v else None)
      else None)"

definition ipv4_text :: "string \<Rightarrow> string option" where
  "ipv4_text s =
     (let parts = split_on CHR ''.'' s
      in if length parts = 4
         then (case those (map octet_value parts) of
                 None \<Rightarrow> None
               | Some vs \<Rightarrow> Some (join ''.'' (map str_nat vs)))
         else None)"

section \<open>Concrete inputs\<close>

text \<open>An instance of the library parameters: the decoder keeps the ASCII bytes, on which
  it agrees with UTF-8, and an IPv6 address is written as eight groups of four hex digits.\<close>

definition hex_digit :: "nat \<Rightarrow> char" where
  "hex_digit n = (if n < 10 then char_of (48 + n) else char_of (87 + n))"

fun hex_groups :: "byte list \<Rightarrow> string list" where
  "hex_groups (a # b # bs) =
     [hex_digit (unat a div 16), hex_digit (unat a mod 16),
      hex_digit (unat b div 16), hex_digit (unat b mod 16)] # hex_groups bs"
| "hex_groups _ = []"

definition ascii_lib :: pylib where
  "ascii_lib = \<lparr> utf8_ignore = (\<lambda>bs. map (\<lambda>b. char_of (unat b)) (filter (\<lambda>b. b < 0x80) bs)),
                 ntop6 = (\<lambda>bs. join '':'' (hex_groups bs)) \<rparr>"


text \<open>A query with transaction ID \<open>0x1234\<close> and one question, \<open>example.com\<close> A IN.\<close>

definition example_query :: "byte list" where
  "example_query =
     [0x12, 0x34, 0x01, 0x00, 0x00, 0x01, 0x00, 0x00, 0x00, 0x00, 0x00, 0x00,
      7, 0x65, 0x78, 0x61, 0x6D, 0x70, 0x6C, 0x65, 3, 0x63, 0x6F, 0x6D, 0,
      0x00, 0x01, 0x00, 0x01]"

text \<open>A query for the root domain: the question name is the single zero byte.\<close>

definition root_query :: "byte list" where
  "root_query = [0xAB, 0xCD, 0x01, 0x00, 0x00, 0x01, 0x00, 0x00, 0x00, 0x00, 0x00, 0x00,
                 0, 0x00, 0x02, 0x00, 0x01]"

text \<open>A response to the example query with a CNAME record and three A records, two of them
  equal, all with compressed names; its bytes; and the same response announcing a fifth
  record of which only fourteen bytes arrived.\<close>

definition example_response :: dns_message where
  "example_response =
     \<lparr> msg_id = 0x1234, msg_flags = 0x8180,
       questions = [\<lparr> q_name = ([[0x65, 0x78, 0x61, 0x6D, 0x70, 0x6C, 0x65], [0x63, 0x6F, 0x6D]], Root),
                      q_type = 1, q_class = 1 \<rparr>],
       ancount = 4, nscount = 0, arcount = 0,
       answers =
         [\<lparr> rr_name = ([], Pointer 0xC0 0x0C), rr_type = 5, rr_class = 1, rr_ttl = 60,
             rr_data = [3, 0x77, 0x77, 0x77, 0xC0, 0x0C] \<rparr>,
          \<lparr> rr_name = ([], Pointer 0xC0 0x0C), rr_type = 1, rr_class = 1, rr_ttl = 60,
             rr_data = [93, 184, 216, 34] \<rparr>,
          \<lparr> rr_name = ([], Pointer 0xC0 0x0C), rr_type = 1, rr_class = 1, rr_ttl = 60,
             rr_data = [10, 0, 0, 1] \<rparr>,
          \<lparr> rr_name = ([], Pointer 0xC0 0x0C), rr_type = 1, rr_class = 1, rr_ttl = 60,
             rr_data = [93, 184, 216, 34] \<rparr>],
       rest = [] \<rparr>"

definition truncated_response :: dns_message where
  "truncated_response =
     example_response \<lparr> ancount := 5, rest := [0xC0, 0x0C, 0x00, 0x01, 0x00, 0x01, 0, 0, 0, 60, 0, 4, 10, 0] \<rparr>"

definition example_bytes :: "byte list" where
  "example_bytes =
     [0x12, 0x34, 0x81, 0x80, 0, 1, 0, 4, 0, 0, 0, 0,
      7, 0x65, 0x78, 0x61, 0x6D, 0x70, 0x6C, 0x65, 3, 0x63, 0x6F, 0x6D, 0, 0, 1, 0, 1,
      0xC0, 0x0C, 0, 5, 0, 1, 0, 0, 0, 60, 0, 6, 3, 0x77, 0x77, 0x77, 0xC0, 0x0C,
      0xC0, 0x0C, 0, 1, 0, 1, 0, 0, 0, 60, 0, 4, 93, 184, 216, 34,
      0xC0, 0x0C, 0, 1, 0, 1, 0, 0, 0, 60, 0, 4, 10, 0, 0, 1,
      0xC0, 0x0C, 0, 1, 0, 1, 0, 0, 0, 60, 0, 4, 93, 184, 216, 34]"

text \<open>A one-byte label followed by a pointer to itself, and a name of two labels whose
  pointer leads back to the second label.\<close>

definition label_then_self_pointer :: "byte list" where
  "label_then_self_pointer = [1, 0x61, 0xC0, 0x02]"

definition looping_name :: "byte list" where
  "looping_name = [0xFF, 1, 0x61, 1, 0x62, 0xC0, 0x03]"

text \<open>A query for a name whose last label ends with a space.\<close>

definition spaced_query :: "byte list" where
  "spaced_query =
     [0x56, 0x78, 0x01, 0x00, 0x00, 0x01, 0x00, 0x00, 0x00, 0x00, 0x00, 0x00,
      7, 0x65, 0x78, 0x61, 0x6D, 0x70, 0x6C, 0x65, 4, 0x63, 0x6F, 0x6D, 0x20, 0,
      0x00, 0x01, 0x00, 0x01]"

text \<open>A fresh blocker state for \<open>youtube.com\<close>, a file system with the ordered log only, a
  log whose only line has no terminator, and a log line cut inside its IP list with the
  bytes that complete it.\<close>

definition empty_store :: store where
  "empty_store = \<lparr> objs = (\<lambda>_. {}), next_ref = 0 \<rparr>"

definition blocker0 :: "BlockerState \<times> store" where
  "blocker0 = new_BlockerState empty_store ''youtube.com'' ''run1'' ''ordered.txt'' None ''log''
                ''com.apple/exp3_no_youtube'' ''exp3_youtube_block''"

text \<open>
  An instance of the text layer, for a log of ASCII characters without carriage returns:
  each byte is one character, a line ends behind its line feed, the last line is what is
  left when the file ends, and the position \<open>tell\<close> returns is the byte offset.
  \<open>ascii_bytes\<close> gives the bytes of such a text, and \<open>one_file\<close> is the file system that
  holds it as the ordered log.
\<close>

fun split_lines :: "byte list \<Rightarrow> string \<Rightarrow> nat \<Rightarrow> (string \<times> nat) list" where
  "split_lines [] line pos = (if line = [] then [] else [(line, pos)])"
| "split_lines (b # bs) line pos =
     (if b = 0x0A then (line @ [CHR 0x0A], pos + 1) # split_lines bs [] (pos + 1)
      else split_lines bs (line @ [char_of (unat b)]) (pos + 1))"

definition ascii_text :: text_layer where
  "ascii_text log pos = split_lines (drop pos log) [] pos"

definition ascii_bytes :: "string \<Rightarrow> byte list" where
  "ascii_bytes text = map (\<lambda>c. of_nat (of_char c)) text"

definition one_file :: "string \<Rightarrow> string \<Rightarrow> byte list option" where
  "one_file text path = (if path = ''ordered.txt'' then Some (ascii_bytes text) else None)"

definition unterminated_log :: string where
  "unterminated_log = ''[youtube.com] @ [20240101-12:00:00] using [142.250.1.1]''"

definition cut_log :: string where
  "cut_log = ''[youtube.com] @ [20240101-12:00:00] using [142.250.1''"

definition cut_log_tail :: string where
  "cut_log_tail = ''.1]'' @ [CHR 0x0A]"

text \<open>A log with a complete line in front of the line without terminator.\<close>

definition first_line :: string where
  "first_line = ''[example.com] @ [20240101-11:59:59] using [10.0.0.2]'' @ [CHR 0x0A]"

definition two_line_log :: string where
  "two_line_log = first_line @ unterminated_log"

text \<open>A packet filter on which every command succeeds with no output, one that refuses
  to load rules, the log read by the fresh blocker, and the first two rounds of the main
  loop over the unterminated log.\<close>

definition quiet_pf :: world where
  "quiet_pf = \<lparr> pf_calls = [],
                pf_reply = (\<lambda>_ _. \<lparr> returncode = 0, stdout = [], stderr = [] \<rparr>),
                written = [] \<rparr>"

definition refusing_pf :: world where
  "refusing_pf = \<lparr> pf_calls = [],
                   pf_reply = (\<lambda>_ c. \<lparr> returncode = (if ''-f'' \<in> set (fst c) then 1 else 0),
                                         stdout = [], stderr = [] \<rparr>),
                   written = [] \<rparr>"

definition first_read :: "BlockerState \<times> store" where
  "first_read = consume_new_events ascii_text ipv4_text (one_file unterminated_log) blocker0"

definition first_round :: "world \<Rightarrow> BlockerState \<times> store \<times> world \<times> string" where
  "first_round w = main_iteration ascii_text ipv4_text (one_file unterminated_log) True
                     (fst blocker0, snd blocker0, w, [])"

definition second_round :: "world \<Rightarrow> BlockerState \<times> store \<times> world \<times> string" where
  "second_round w = main_iteration ascii_text ipv4_text (one_file unterminated_log) True (first_round w)"

definition second_read :: "BlockerState \<times> store" where
  "second_read = consume_new_events ascii_text ipv4_text (one_file unterminated_log)
                   (fst (first_round quiet_pf), fst (snd (first_round quiet_pf)))"

section \<open>make\_servfail\<close>

lemma servfail_some:
  "12 \<le> length query \<Longrightarrow>
   make_servfail query =
     Some (take 2 query @ [0x81, 0x82] @ pyslice query 4 6 @ [0, 0, 0, 0, 0, 0] @ drop 12 query)"
  by (simp add: make_servfail_def Let_def)

lemma pyslice_4_6_length:
  "12 \<le> length (query :: byte list) \<Longrightarrow> length (pyslice query 4 6) = 2"
  by (simp add: pyslice_def)

text \<open>
  C2. For a query of at least 12 bytes \<open>make_servfail\<close> returns a message with the query's
  first two bytes (the transaction ID), the flag bytes \<open>0x81 0x82\<close>, the query's bytes 4-5
  (the question count), six zero bytes for the answer, authority and additional counts, and
  the query's bytes from offset 12 on, where the question section is. For a shorter query
  it returns \<open>None\<close>.
\<close>

theorem make_servfail_header:
  "(12 \<le> length query \<longrightarrow>
      (\<exists>r. make_servfail query = Some r
         \<and> take 2 r = take 2 query
         \<and> pyslice r 2 4 = [0x81, 0x82]
         \<and> pyslice r 4 6 = pyslice query 4 6
         \<and> pyslice r 6 12 = [0, 0, 0, 0, 0, 0]
         \<and> drop 12 r = drop 12 query))
   \<and> (length query < 12 \<longrightarrow> make_servfail query = None)"
proof (intro conjI impI)
  assume len: "12 \<le> length query"
  let ?r = "take 2 query @ [0x81, 0x82] @ pyslice query 4 6 @ [0, 0, 0, 0, 0, 0] @ drop 12 query"
  have l2: "length (take 2 query) = 2" using len by simp
  have l4: "length (pyslice query 4 6) = 2" using len by (rule pyslice_4_6_length)
  have "take 2 ?r = take 2 query" using l2 by simp
  moreover have "pyslice ?r 2 4 = [0x81, 0x82]" unfolding pyslice_def using len by simp
  moreover have "pyslice ?r 4 6 = pyslice query 4 6"
    unfolding pyslice_def using len by simp
  moreover have "pyslice ?r 6 12 = [0, 0, 0, 0, 0, 0]"
    unfolding pyslice_def using len by simp
  moreover have "drop 12 ?r = drop 12 query"
    using l2 l4 by simp
  ultimately show "\<exists>r. make_servfail query = Some r
         \<and> take 2 r = take 2 query
         \<and> pyslice r 2 4 = [0x81, 0x82]
         \<and> pyslice r 4 6 = pyslice query 4 6
         \<and> pyslice r 6 12 = [0, 0, 0, 0, 0, 0]
         \<and> drop 12 r = drop 12 query"
    using servfail_some [OF len] by blast
next
  assume "length query < 12"
  then show "make_servfail query = None" by (simp add: make_servfail_def)
qed

theorem make_servfail_header_witness:
  "12 \<le> length example_query
   \<and> (\<exists>r. make_servfail example_query = Some r
         \<and> take 2 r = [0x12, 0x34]
         \<and> pyslice r 2 4 = [0x81, 0x82]
         \<and> pyslice r 4 6 = [0x00, 0x01]
         \<and> pyslice r 6 12 = [0, 0, 0, 0, 0, 0]
         \<and> drop 12 r = drop 12 example_query)
   \<and> make_servfail (take 11 example_query) = None"
  using make_servfail_header [of example_query] make_servfail_header [of "take 11 example_query"]
  by (simp add: example_query_def pyslice_def)

text \<open>
  C9. For a query of at least 12 bytes the message \<open>make_servfail\<close> returns has the length
  of the query and the same bytes from offset 12 on: whatever follows the header, answer,
  authority and additional records included, is carried over unchanged.
\<close>

theorem make_servfail_same_length:
  "12 \<le> length query \<Longrightarrow>
   \<exists>r. make_servfail query = Some r \<and> length r = length query \<and> drop 12 r = drop 12 query"
  using servfail_some [of query] pyslice_4_6_length [of query] by simp

theorem make_servfail_same_length_witness:
  "12 \<le> length example_query
   \<and> (\<exists>r. make_servfail example_query = Some r \<and> length r = length example_query
         \<and> drop 12 r = drop 12 example_query)"
proof -
  have h: "12 \<le> length example_query" by (simp add: example_query_def)
  show ?thesis using h make_servfail_same_length [OF h] by blast
qed

section \<open>decode\_dns\_name\<close>

lemma unat_byte: "n < 256 \<Longrightarrow> unat (of_nat n :: byte) = n"
  by (simp add: unat_of_nat)

lemma small_and_192:
  assumes "(n::nat) < 64"
  shows "n AND 192 = 0"
proof -
  have "n = n AND 63"
    using assms take_bit_eq_mask [of 6 n] take_bit_nat_eq_self [of n 6]
    by (simp add: mask_eq_exp_minus_1)
  then have "n AND 192 = (n AND 63) AND 192" by simp
  also have "\<dots> = n AND (63 AND 192)" by (simp only: and.assoc)
  also have "\<dots> = 0" by simp
  finally show ?thesis .
qed

lemma decode_loop_nat_total:
  "\<exists>r. decode_loop_nat lib data labels cursor end_offset jumped seen = Inr r"
proof (induction lib data labels cursor end_offset jumped seen rule: decode_loop_nat.induct)
  case (1 lib data labels cursor end_offset jumped seen)
  show ?case
  proof (cases "cursor \<ge> length data")
    case True
    then show ?thesis by (subst decode_loop_nat.simps) simp
  next
    case False
    then have g: "getitem_nat data cursor = Inr (unat (data ! cursor))" by (simp add: getitem_nat_def)
    show ?thesis
    proof (cases "cursor + 1 \<ge> length data")
      case True
      with False g show ?thesis
        using "1.IH"(2) by (subst decode_loop_nat.simps) (auto simp: Let_def)
    next
      case c1: False
      then have g1: "getitem_nat data (cursor + 1) = Inr (unat (data ! (cursor + 1)))"
        by (simp add: getitem_nat_def)
      from False c1 g g1 show ?thesis
        using "1.IH" by (subst decode_loop_nat.simps) (auto simp: Let_def)
    qed
  qed
qed

lemma pointer_atD:
  assumes "pointer_at data cursor = Some q"
  shows "cursor + 1 < length data" and "unat (data ! cursor) AND 0xC0 = 0xC0"
    and "unat (data ! cursor) \<noteq> 0"
    and "q = (push_bit 8 (unat (data ! cursor) AND 0x3F)) OR unat (data ! (cursor + 1))"
proof -
  from assms show a: "cursor + 1 < length data" and b: "unat (data ! cursor) AND 0xC0 = 0xC0"
    and "q = (push_bit 8 (unat (data ! cursor) AND 0x3F)) OR unat (data ! (cursor + 1))"
    by (auto simp: pointer_at_def split: if_splits)
  show "unat (data ! cursor) \<noteq> 0"
  proof
    assume "unat (data ! cursor) = 0"
    with b show False by simp
  qed
qed

lemma decode_loop_nat_seen_abort:
  assumes "pointer_at data cursor = Some q" "q \<in> set seen"
  shows "decode_loop_nat lib data labels cursor end_offset jumped seen
           = Inr (labels, cursor, end_offset, jumped, seen)"
  using pointer_atD [OF assms(1)] assms(2)
  by (subst decode_loop_nat.simps) (simp add: getitem_nat_def Let_def)

lemma decode_loop_nat_jump:
  assumes "pointer_at data cursor = Some q" "q \<notin> set seen"
  shows "decode_loop_nat lib data labels cursor end_offset jumped seen
           = decode_loop_nat lib data labels q (if \<not> jumped then cursor + 2 else end_offset) True
               (seen @ [q])"
  using pointer_atD [OF assms(1)] assms(2)
  by (subst decode_loop_nat.simps) (simp add: getitem_nat_def Let_def)

lemma decode_loop_nat_distinct:
  "decode_loop_nat lib data labels cursor end_offset jumped seen = Inr (labels', cursor', e', j', seen')
   \<Longrightarrow> distinct seen \<Longrightarrow> distinct seen'"
proof (induction lib data labels cursor end_offset jumped seen rule: decode_loop_nat.induct)
  case (1 lib data labels cursor end_offset jumped seen)
  show ?case
  proof (cases "cursor \<ge> length data")
    case True
    with "1.prems" show ?thesis by (subst (asm) decode_loop_nat.simps) simp
  next
    case False
    then have g: "getitem_nat data cursor = Inr (unat (data ! cursor))" by (simp add: getitem_nat_def)
    show ?thesis
    proof (cases "cursor + 1 \<ge> length data")
      case True
      with False g "1.prems" show ?thesis
        using "1.IH"(2)
        by (subst (asm) decode_loop_nat.simps) (auto simp: Let_def split: if_splits)
    next
      case c1: False
      then have g1: "getitem_nat data (cursor + 1) = Inr (unat (data ! (cursor + 1)))"
        by (simp add: getitem_nat_def)
      from False c1 g g1 "1.prems" show ?thesis
        using "1.IH" by (subst (asm) decode_loop_nat.simps) (auto simp: Let_def split: if_splits)
    qed
  qed
qed

lemma decode_dns_name_nat_total: "\<exists>name e. decode_dns_name_nat lib data offset = Inr (name, e)"
proof -
  obtain r where "decode_loop_nat lib data [] offset offset False [] = Inr r"
    using decode_loop_nat_total by blast
  then show ?thesis
    by (cases r) (simp add: decode_dns_name_nat_def)
qed

subsection \<open>Agreement of the two loops\<close>

lemma nat_int_add1: "nat (int c + 1) = c + 1" by simp

lemma nat_int_add2: "nat (int c + 1 + int d) = c + 1 + d" by simp

lemma getitem_nonneg: "0 \<le> i \<Longrightarrow> getitem data i = getitem_nat data (nat i)"
  by (auto simp add: getitem_def getitem_nat_def Let_def nat_less_iff)

lemma clip_nonneg: "0 \<le> i \<Longrightarrow> clip n i = min (nat i) n"
  by (simp add: clip_def)

lemma pyslice_int_nonneg:
  "0 \<le> a \<Longrightarrow> 0 \<le> b \<Longrightarrow> pyslice_int data a b = pyslice data (nat a) (nat b)"
  by (cases "nat a \<le> length data")
     (simp_all add: pyslice_int_def pyslice_def clip_nonneg Let_def min_def)

lemma decode_loop_nonneg:
  "decode_loop lib data labels (int cursor) (int e) jumped seen
     = (case decode_loop_nat lib data labels cursor e jumped seen of
          Inl x \<Rightarrow> Inl x
        | Inr (l, c, e', j, s) \<Rightarrow> Inr (l, int c, int e', j, s))"
proof (induction lib data labels cursor e jumped seen rule: decode_loop_nat.induct)
  case (1 lib data labels cursor e jumped seen)
  note int_eq = decode_loop.simps [of lib data labels "int cursor" "int e" jumped seen]
  note nat_eq = decode_loop_nat.simps [of lib data labels cursor e jumped seen]
  show ?case
  proof (cases "cursor \<ge> length data")
    case True
    then show ?thesis by (subst int_eq, subst nat_eq) simp
  next
    case False
    obtain len where g: "getitem_nat data cursor = Inr len"
      using False by (simp add: getitem_nat_def)
    have gi: "getitem data (int cursor) = Inr len"
      using g by (simp add: getitem_nonneg)
    consider (zero) "len = 0"
      | (ptr) "len \<noteq> 0" "len AND 0xC0 = 0xC0"
      | (bad) "len \<noteq> 0" "len AND 0xC0 \<noteq> 0xC0" "len AND 0xC0 \<noteq> 0"
      | (label) "len \<noteq> 0" "len AND 0xC0 \<noteq> 0xC0" "len AND 0xC0 = 0"
      by blast
    then show ?thesis
    proof cases
      case zero
      with False g gi show ?thesis
        by (subst int_eq, subst nat_eq) (cases jumped; simp)
    next
      case bad
      with False g gi show ?thesis
        by (subst int_eq, subst nat_eq) simp
    next
      case ptr
      show ?thesis
      proof (cases "cursor + 1 \<ge> length data")
        case True
        with False g gi ptr show ?thesis
          by (subst int_eq, subst nat_eq) simp
      next
        case c1: False
        obtain lo where g1: "getitem_nat data (cursor + 1) = Inr lo"
          using c1 by (simp add: getitem_nat_def)
        have gi1: "getitem data (int cursor + 1) = Inr lo"
          using g1 by (simp add: getitem_nonneg nat_int_add1)
        let ?p = "(push_bit 8 (len AND 0x3F)) OR lo"
        show ?thesis
        proof (cases "?p \<in> set seen")
          case True
          with False g gi ptr c1 g1 gi1 show ?thesis
            by (subst int_eq, subst nat_eq) (simp add: Let_def)
        next
          case np: False
          have ih: "decode_loop lib data labels (int ?p)
                      (int (if \<not> jumped then cursor + 2 else e)) True (seen @ [?p])
                    = (case decode_loop_nat lib data labels ?p
                              (if \<not> jumped then cursor + 2 else e) True (seen @ [?p]) of
                         Inl x \<Rightarrow> Inl x
                       | Inr (l, c, e', j, s) \<Rightarrow> Inr (l, int c, int e', j, s))"
            using "1.IH"(1) [OF False g ptr(1) ptr(2) c1 g1 refl np] .
          have i2: "int (if \<not> jumped then cursor + 2 else e)
                      = (if \<not> jumped then int cursor + 2 else int e)"
            by simp
          from False g gi ptr c1 g1 gi1 np ih show ?thesis
            by (subst int_eq, subst nat_eq) (cases jumped; simp add: Let_def add.commute)
        qed
      qed
    next
      case label
      show ?thesis
      proof (cases "cursor + 1 + len > length data")
        case True
        with False g gi label show ?thesis
          by (subst int_eq, subst nat_eq) (simp add: Let_def)
      next
        case fits: False
        let ?c2 = "cursor + 1 + len"
        let ?lab = "utf8_ignore lib (pyslice data (cursor + 1) ?c2)"
        have slice: "pyslice_int data (int cursor + 1) (int cursor + 1 + int len)
                       = pyslice data (cursor + 1) ?c2"
          by (simp add: pyslice_int_nonneg nat_int_add1 nat_int_add2)
        have ih: "decode_loop lib data (labels @ [?lab]) (int ?c2)
                      (int (if \<not> jumped then ?c2 else e)) jumped seen
                    = (case decode_loop_nat lib data (labels @ [?lab]) ?c2
                              (if \<not> jumped then ?c2 else e) jumped seen of
                         Inl x \<Rightarrow> Inl x
                       | Inr (l, c, e', j, s) \<Rightarrow> Inr (l, int c, int e', j, s))"
          using "1.IH"(2) [OF False g label(1) label(2) _ refl fits refl refl] label(3) by simp
        have i2: "int (if \<not> jumped then ?c2 else e)
                      = (if \<not> jumped then int cursor + 1 + int len else int e)"
          by simp
        have i3: "int ?c2 = int cursor + 1 + int len" by simp
        from False g gi label fits ih slice show ?thesis
          by (subst int_eq, subst nat_eq) (cases jumped; simp add: Let_def add.commute add.left_commute)
      qed
    qed
  qed
qed

lemma decode_dns_name_nonneg:
  "decode_dns_name lib data (int offset)
     = (case decode_dns_name_nat lib data offset of
          Inl e \<Rightarrow> Inl e
        | Inr (name, e) \<Rightarrow> Inr (name, int e))"
  unfolding decode_dns_name_def decode_dns_name_nat_def decode_loop_nonneg
  by (auto split: sum.splits simp: Let_def)

lemma decode_dns_name_12:
  "decode_dns_name lib data 12
     = (case decode_dns_name_nat lib data 12 of
          Inl e \<Rightarrow> Inl e
        | Inr (name, e) \<Rightarrow> Inr (name, int e))"
  using decode_dns_name_nonneg [of lib data 12] by simp

subsection \<open>Any starting offset\<close>

text \<open>The loop raises exactly when its first index is below the buffer.\<close>

lemma decode_loop_raises:
  assumes "cursor < - int (length data)"
  shows "decode_loop lib data labels cursor e jumped seen = Inl IndexError"
proof -
  have "\<not> cursor \<ge> int (length data)" using assms by simp
  moreover have "getitem data cursor = Inl IndexError"
    using assms by (simp add: getitem_def Let_def)
  ultimately show ?thesis by (subst decode_loop.simps) simp
qed

lemma getitem_inside:
  assumes "- int (length data) \<le> i" "i < int (length data)"
  shows "\<exists>b. getitem data i = Inr b"
  using assms by (simp add: getitem_def Let_def)

lemma decode_loop_returns:
  "- int (length data) \<le> cursor \<Longrightarrow>
   \<exists>r. decode_loop lib data labels cursor e jumped seen = Inr r"
proof (induction lib data labels cursor e jumped seen rule: decode_loop.induct)
  case (1 lib data labels cursor e jumped seen)
  note eq = decode_loop.simps [of lib data labels cursor e jumped seen]
  show ?case
  proof (cases "cursor \<ge> int (length data)")
    case True
    then show ?thesis by (subst eq) simp
  next
    case False
    obtain len where g: "getitem data cursor = Inr len"
      using getitem_inside [of data cursor] "1.prems" False by auto
    consider (zero) "len = 0"
      | (ptr) "len \<noteq> 0" "len AND 0xC0 = 0xC0"
      | (bad) "len \<noteq> 0" "len AND 0xC0 \<noteq> 0xC0" "len AND 0xC0 \<noteq> 0"
      | (label) "len \<noteq> 0" "len AND 0xC0 \<noteq> 0xC0" "len AND 0xC0 = 0"
      by blast
    then show ?thesis
    proof cases
      case zero
      with False g show ?thesis by (subst eq) simp
    next
      case bad
      with False g show ?thesis by (subst eq) simp
    next
      case ptr
      show ?thesis
      proof (cases "cursor + 1 \<ge> int (length data)")
        case True
        with False g ptr show ?thesis by (subst eq) simp
      next
        case c1: False
        obtain lo where g1: "getitem data (cursor + 1) = Inr lo"
          using getitem_inside [of data "cursor + 1"] "1.prems" c1 by auto
        let ?p = "(push_bit 8 (len AND 0x3F)) OR lo"
        show ?thesis
        proof (cases "?p \<in> set seen")
          case True
          with False g ptr c1 g1 show ?thesis by (subst eq) (simp add: Let_def)
        next
          case np: False
          have "\<exists>r. decode_loop lib data labels (int ?p)
                      (if \<not> jumped then cursor + 2 else e) True (seen @ [?p]) = Inr r"
            using "1.IH"(1) [OF False g ptr(1) ptr(2) c1 g1 refl np] by simp
          with False g ptr c1 g1 np show ?thesis
            by (subst eq) (cases jumped; simp add: Let_def)
        qed
      qed
    next
      case label
      show ?thesis
      proof (cases "cursor + 1 + int len > int (length data)")
        case True
        with False g label show ?thesis by (subst eq) (simp add: Let_def)
      next
        case fits: False
        have "\<exists>r. decode_loop lib data
                     (labels @ [utf8_ignore lib (pyslice_int data (cursor + 1) (cursor + 1 + int len))])
                     (cursor + 1 + int len)
                     (if \<not> jumped then cursor + 1 + int len else e) jumped seen = Inr r"
          using "1.IH"(2) [OF False g label(1) label(2) _ refl fits refl refl] label(3) "1.prems"
          by simp
        with False g label fits show ?thesis
          by (subst eq) (cases jumped; simp add: Let_def)
      qed
    qed
  qed
qed

lemma decode_loop_distinct:
  "decode_loop lib data labels cursor e jumped seen = Inr (labels', cursor', e', j', seen')
   \<Longrightarrow> distinct seen \<Longrightarrow> distinct seen'"
proof (induction lib data labels cursor e jumped seen rule: decode_loop.induct)
  case (1 lib data labels cursor e jumped seen)
  note eq = decode_loop.simps [of lib data labels cursor e jumped seen]
  show ?case
  proof (cases "cursor \<ge> int (length data)")
    case True
    with "1.prems" show ?thesis by (subst (asm) eq) simp
  next
    case False
    show ?thesis
    proof (cases "getitem data cursor")
      case (Inl x)
      with False "1.prems"(1) show ?thesis by (subst (asm) eq) simp
    next
      case g: (Inr len)
      consider (zero) "len = 0"
        | (ptr) "len \<noteq> 0" "len AND 0xC0 = 0xC0"
        | (bad) "len \<noteq> 0" "len AND 0xC0 \<noteq> 0xC0" "len AND 0xC0 \<noteq> 0"
        | (label) "len \<noteq> 0" "len AND 0xC0 \<noteq> 0xC0" "len AND 0xC0 = 0"
        by blast
      then show ?thesis
      proof cases
        case zero
        with False g "1.prems" show ?thesis by (subst (asm) eq) simp
      next
        case bad
        with False g "1.prems" show ?thesis by (subst (asm) eq) simp
      next
        case ptr
        show ?thesis
        proof (cases "cursor + 1 \<ge> int (length data)")
          case True
          with False g ptr "1.prems" show ?thesis by (subst (asm) eq) simp
        next
          case c1: False
          show ?thesis
          proof (cases "getitem data (cursor + 1)")
            case (Inl x)
            with False g ptr c1 "1.prems"(1) show ?thesis by (subst (asm) eq) simp
          next
            case g1: (Inr lo)
            let ?p = "(push_bit 8 (len AND 0x3F)) OR lo"
            show ?thesis
            proof (cases "?p \<in> set seen")
              case True
              with False g ptr c1 g1 "1.prems" show ?thesis
                by (subst (asm) eq) (simp add: Let_def)
            next
              case np: False
              have r: "decode_loop lib data labels (int ?p)
                      (if \<not> jumped then cursor + 2 else e) True (seen @ [?p])
                       = Inr (labels', cursor', e', j', seen')"
                using "1.prems"(1) False g ptr c1 g1 np
                by (subst (asm) eq) (simp add: Let_def)
              have d: "distinct (seen @ [?p])" using np "1.prems"(2) by simp
              show ?thesis
                using "1.IH"(1) [OF False g ptr(1) ptr(2) c1 g1 refl np r d] .
            qed
          qed
        qed
      next
        case label
        show ?thesis
        proof (cases "cursor + 1 + int len > int (length data)")
          case True
          with False g label "1.prems" show ?thesis by (subst (asm) eq) (simp add: Let_def)
        next
          case fits: False
          have r: "decode_loop lib data
                     (labels @ [utf8_ignore lib (pyslice_int data (cursor + 1) (cursor + 1 + int len))])
                     (cursor + 1 + int len)
                     (if \<not> jumped then cursor + 1 + int len else e) jumped seen
                   = Inr (labels', cursor', e', j', seen')"
            using "1.prems"(1) False g label fits
            by (subst (asm) eq) (simp add: Let_def)
          have l0: "\<not> (len AND 0xC0 \<noteq> 0)" using label(3) by simp
          show ?thesis
            using "1.IH"(2) [OF False g label(1) label(2) l0 refl fits refl refl r "1.prems"(2)] .
        qed
      qed
    qed
  qed
qed

lemma decode_dns_name_returns:
  "- int (length data) \<le> offset \<Longrightarrow> \<exists>name e. decode_dns_name lib data offset = Inr (name, e)"
proof -
  assume "- int (length data) \<le> offset"
  then obtain r where "decode_loop lib data [] offset offset False [] = Inr r"
    using decode_loop_returns by blast
  then show ?thesis by (cases r) (simp add: decode_dns_name_def)
qed

lemma decode_dns_name_raises:
  "offset < - int (length data) \<Longrightarrow> decode_dns_name lib data offset = Inl IndexError"
  by (simp add: decode_dns_name_def decode_loop_raises)

lemma decode_loop_seen_abort:
  assumes "pointer_at data p = Some q" "q \<in> set seen"
  shows "decode_loop lib data labels (int p) e jumped seen = Inr (labels, int p, e, jumped, seen)"
proof -
  note d = pointer_atD [OF assms(1)]
  have g: "getitem data (int p) = Inr (unat (data ! p))"
    using d(1) by (simp add: getitem_nonneg getitem_nat_def)
  have g1: "getitem data (int p + 1) = Inr (unat (data ! (p + 1)))"
    using d(1) by (simp add: getitem_nonneg getitem_nat_def nat_int_add1)
  have c: "\<not> int p \<ge> int (length data)" "\<not> int p + 1 \<ge> int (length data)"
    using d(1) by simp_all
  show ?thesis
    using c g g1 d(2,3) assms(2) d(4) [symmetric]
    by (subst decode_loop.simps) (simp add: Let_def)
qed

subsection \<open>The name that is returned\<close>

lemma encode_labels_append: "encode_labels (xs @ ys) = encode_labels xs @ encode_labels ys"
  by (induction xs) simp_all

lemma decode_loop_nat_read_labels:
  assumes "wf_labels ls"
  shows "decode_loop_nat lib (pre @ encode_labels ls @ post) labels (length pre) e jumped seen
     = decode_loop_nat lib (pre @ encode_labels ls @ post) (labels @ map (utf8_ignore lib) ls)
         (length pre + length (encode_labels ls))
         (if jumped \<or> ls = [] then e else length pre + length (encode_labels ls)) jumped seen"
  using assms
proof (induction ls arbitrary: pre labels e)
  case Nil
  show ?case by simp
next
  case (Cons l ls)
  let ?data = "pre @ encode_labels (l # ls) @ post"
  let ?pre' = "pre @ of_nat (length l) # l"
  let ?e' = "if \<not> jumped then length ?pre' else e"
  have l: "1 \<le> length l" "length l \<le> 63" and rest: "wf_labels ls"
    using Cons.prems by (simp_all add: wf_labels_def)
  have data: "?data = ?pre' @ encode_labels ls @ post" by simp
  have g: "getitem_nat ?data (length pre) = Inr (length l)"
    using l by (simp add: getitem_nat_def nth_append unat_byte)
  have a1: "length l AND 192 = 0" using l by (simp add: small_and_192)
  have ne: "l \<noteq> []" using l by auto
  have sl: "pyslice ?data (length pre + 1) (length pre + 1 + length l) = l"
    by (simp add: pyslice_def)
  have step: "decode_loop_nat lib ?data labels (length pre) e jumped seen
        = decode_loop_nat lib ?data (labels @ [utf8_ignore lib l]) (length ?pre') ?e' jumped seen"
    using l g a1 sl ne
    by (subst decode_loop_nat.simps [of lib ?data labels "length pre" e jumped seen])
       (simp add: Let_def)
  have ih: "decode_loop_nat lib (?pre' @ encode_labels ls @ post)
              (labels @ [utf8_ignore lib l]) (length ?pre') ?e' jumped seen
     = decode_loop_nat lib (?pre' @ encode_labels ls @ post)
         ((labels @ [utf8_ignore lib l]) @ map (utf8_ignore lib) ls)
         (length ?pre' + length (encode_labels ls))
         (if jumped \<or> ls = [] then ?e' else length ?pre' + length (encode_labels ls)) jumped seen"
    by (rule Cons.IH [OF rest])
  have e1: "length ?pre' + length (encode_labels ls) = length pre + length (encode_labels (l # ls))"
    by simp
  have e2: "(if jumped \<or> ls = [] then ?e' else length ?pre' + length (encode_labels ls))
              = (if jumped \<or> l # ls = [] then e else length pre + length (encode_labels (l # ls)))"
    by simp
  have e3: "(labels @ [utf8_ignore lib l]) @ map (utf8_ignore lib) ls
              = labels @ map (utf8_ignore lib) (l # ls)"
    by simp
  have "decode_loop_nat lib ?data labels (length pre) e jumped seen
        = decode_loop_nat lib ?data (labels @ [utf8_ignore lib l]) (length ?pre') ?e' jumped seen"
    by (rule step)
  also have "\<dots> = decode_loop_nat lib (?pre' @ encode_labels ls @ post)
                       (labels @ [utf8_ignore lib l]) (length ?pre') ?e' jumped seen"
    by (simp only: data)
  also note ih
  also have "decode_loop_nat lib (?pre' @ encode_labels ls @ post)
         ((labels @ [utf8_ignore lib l]) @ map (utf8_ignore lib) ls)
         (length ?pre' + length (encode_labels ls))
         (if jumped \<or> ls = [] then ?e' else length ?pre' + length (encode_labels ls)) jumped seen
     = decode_loop_nat lib ?data (labels @ map (utf8_ignore lib) (l # ls))
         (length pre + length (encode_labels (l # ls)))
         (if jumped \<or> l # ls = [] then e else length pre + length (encode_labels (l # ls)))
         jumped seen"
    by (cases jumped; cases "ls = []"; simp add: add.assoc)
  finally show ?case .
qed

text \<open>A name closed by the zero byte.\<close>

lemma decode_dns_name_nat_root:
  assumes "wf_labels ls"
  shows "decode_dns_name_nat lib (pre @ encode_labels ls @ [0] @ post) (length pre)
           = Inr (dotted_name lib ls, length pre + length (encode_labels ls) + 1)"
proof -
  let ?data = "pre @ encode_labels ls @ [0] @ post"
  let ?p = "length pre + length (encode_labels ls)"
  have g: "getitem_nat ?data ?p = Inr 0"
    by (simp add: getitem_nat_def nth_append)
  have "decode_loop_nat lib ?data [] (length pre) (length pre) False []
          = decode_loop_nat lib ?data ([] @ map (utf8_ignore lib) ls) ?p
              (if False \<or> ls = [] then length pre else ?p) False []"
    by (rule decode_loop_nat_read_labels [OF assms])
  also have "\<dots> = Inr (map (utf8_ignore lib) ls, ?p + 1, ?p + 1, False, [])"
    using g by (subst decode_loop_nat.simps) simp
  finally show ?thesis
    by (simp add: decode_dns_name_nat_def dotted_name_def)
qed

text \<open>A pointer that points back into the name that is being decoded, at the start of one
  of its labels or at the pointer itself.\<close>

lemma decode_dns_name_nat_cycle:
  assumes "wf_labels ls1" "wf_labels ls2"
    and "pointer_at (pre @ encode_labels ls1 @ encode_labels ls2 @ [hi, lo] @ post)
           (length pre + length (encode_labels ls1) + length (encode_labels ls2))
         = Some (length pre + length (encode_labels ls1))"
  shows "decode_dns_name_nat lib (pre @ encode_labels ls1 @ encode_labels ls2 @ [hi, lo] @ post)
           (length pre)
         = Inr (dotted_name lib (ls1 @ ls2 @ ls2),
                length pre + length (encode_labels ls1) + length (encode_labels ls2) + 2)"
proof -
  let ?data = "pre @ encode_labels ls1 @ encode_labels ls2 @ [hi, lo] @ post"
  let ?q = "length pre + length (encode_labels ls1)"
  let ?p = "?q + length (encode_labels ls2)"
  let ?l1 = "map (utf8_ignore lib) (ls1 @ ls2)"
  let ?l2 = "map (utf8_ignore lib) (ls1 @ ls2 @ ls2)"
  have w12: "wf_labels (ls1 @ ls2)" using assms(1,2) by (simp add: wf_labels_def)
  have d1: "?data = pre @ encode_labels (ls1 @ ls2) @ ([hi, lo] @ post)"
    by (simp add: encode_labels_append)
  have d2: "?data = (pre @ encode_labels ls1) @ encode_labels ls2 @ ([hi, lo] @ post)"
    by simp
  have p1: "length pre + length (encode_labels (ls1 @ ls2)) = ?p"
    by (simp add: encode_labels_append)
  have p2: "length (pre @ encode_labels ls1) = ?q" by simp
  obtain e0 where first:
    "decode_loop_nat lib ?data [] (length pre) (length pre) False []
       = decode_loop_nat lib ?data ?l1 ?p e0 False []"
    using decode_loop_nat_read_labels [OF w12, of lib pre "[hi, lo] @ post" "[]" "length pre" False "[]"]
    unfolding p1 d1 [symmetric] by auto
  have jump: "decode_loop_nat lib ?data ?l1 ?p e0 False []
                = decode_loop_nat lib ?data ?l1 ?q (?p + 2) True [?q]"
    using decode_loop_nat_jump [OF assms(3), of "[]" lib ?l1 e0 False] by simp
  have second: "decode_loop_nat lib ?data ?l1 ?q (?p + 2) True [?q]
                = decode_loop_nat lib ?data (?l1 @ map (utf8_ignore lib) ls2) ?p (?p + 2) True [?q]"
    using decode_loop_nat_read_labels [OF assms(2), of lib "pre @ encode_labels ls1"
            "[hi, lo] @ post" ?l1 "?p + 2" True "[?q]"]
    unfolding p2 d2 [symmetric] by simp
  have stop: "decode_loop_nat lib ?data (?l1 @ map (utf8_ignore lib) ls2) ?p (?p + 2) True [?q]
                = Inr (?l1 @ map (utf8_ignore lib) ls2, ?p, ?p + 2, True, [?q])"
    using decode_loop_nat_seen_abort [OF assms(3), of "[?q]" lib] by simp
  have "decode_loop_nat lib ?data [] (length pre) (length pre) False []
          = Inr (?l2, ?p, ?p + 2, True, [?q])"
    using first jump second stop by simp
  then show ?thesis
    by (simp add: decode_dns_name_nat_def dotted_name_def)
qed

lemma decode_dns_name_root:
  assumes "wf_labels ls"
  shows "decode_dns_name lib (pre @ encode_labels ls @ [0] @ post) (int (length pre))
           = Inr (dotted_name lib ls, int (length pre + length (encode_labels ls) + 1))"
  unfolding decode_dns_name_nonneg decode_dns_name_nat_root [OF assms] by simp

lemma decode_dns_name_cycle:
  assumes "wf_labels ls1" "wf_labels ls2"
    and "pointer_at (pre @ encode_labels ls1 @ encode_labels ls2 @ [hi, lo] @ post)
           (length pre + length (encode_labels ls1) + length (encode_labels ls2))
         = Some (length pre + length (encode_labels ls1))"
  shows "decode_dns_name lib (pre @ encode_labels ls1 @ encode_labels ls2 @ [hi, lo] @ post)
           (int (length pre))
         = Inr (dotted_name lib (ls1 @ ls2 @ ls2),
                int (length pre + length (encode_labels ls1) + length (encode_labels ls2) + 2))"
  unfolding decode_dns_name_nonneg decode_dns_name_nat_cycle [OF assms] by simp

text \<open>
  C3, as amended. \<open>decode_dns_name\<close> terminates on every buffer and every offset (its
  loop is defined with its termination proof). From every offset that is not below
  \<open>-len(data)\<close>, so from every offset that is not negative, it returns a name and an
  offset and reads no index outside the buffer; from an offset below \<open>-len(data)\<close> the
  first \<open>data[cursor]\<close> raises \<open>IndexError\<close>. The pointers the loop has followed are
  pairwise different, and at a pointer whose value is already in \<open>seen_pointers\<close> the
  loop is left with the locals as they are. A name of labels closed by the zero byte is
  returned as the labels spell it, with the offset behind the zero byte. Where the labels
  are followed by a pointer that leads back into the name, to the start of one of its
  labels or to the pointer itself, the function returns the name decoded so far, which
  is the labels up to the pointer followed by the labels between the target and the
  pointer once more, and the offset behind the pointer.
\<close>

theorem decode_dns_name_behaviour:
  "(- int (length data) \<le> offset \<longrightarrow>
      (\<exists>name e. decode_dns_name lib data offset = Inr (name, e)))
   \<and> (offset < - int (length data) \<longrightarrow> decode_dns_name lib data offset = Inl IndexError)
   \<and> (\<forall>labels cursor e jumped seen.
         decode_loop lib data [] offset offset False [] = Inr (labels, cursor, e, jumped, seen)
         \<longrightarrow> distinct seen)
   \<and> (\<forall>p q labels e jumped seen.
         pointer_at data p = Some q \<and> q \<in> set seen \<longrightarrow>
         decode_loop lib data labels (int p) e jumped seen = Inr (labels, int p, e, jumped, seen))
   \<and> (\<forall>pre ls post.
         wf_labels ls \<and> data = pre @ encode_labels ls @ [0] @ post \<longrightarrow>
         decode_dns_name lib data (int (length pre))
           = Inr (dotted_name lib ls, int (length pre + length (encode_labels ls) + 1)))
   \<and> (\<forall>pre ls1 ls2 hi lo post.
         wf_labels ls1 \<and> wf_labels ls2
         \<and> data = pre @ encode_labels ls1 @ encode_labels ls2 @ [hi, lo] @ post
         \<and> pointer_at data (length pre + length (encode_labels ls1) + length (encode_labels ls2))
             = Some (length pre + length (encode_labels ls1)) \<longrightarrow>
         decode_dns_name lib data (int (length pre))
           = Inr (dotted_name lib (ls1 @ ls2 @ ls2),
                  int (length pre + length (encode_labels ls1) + length (encode_labels ls2) + 2)))"
proof (intro conjI allI impI)
  show "\<exists>name e. decode_dns_name lib data offset = Inr (name, e)"
    if "- int (length data) \<le> offset"
    using that by (rule decode_dns_name_returns)
  show "decode_dns_name lib data offset = Inl IndexError" if "offset < - int (length data)"
    using that by (rule decode_dns_name_raises)
  show "distinct seen"
    if "decode_loop lib data [] offset offset False [] = Inr (labels, cursor, e, jumped, seen)"
    for labels cursor e jumped seen
    using decode_loop_distinct [OF that] by simp
  show "decode_loop lib data labels (int p) e jumped seen = Inr (labels, int p, e, jumped, seen)"
    if "pointer_at data p = Some q \<and> q \<in> set seen" for p q labels e jumped seen
    using that decode_loop_seen_abort by blast
  show "decode_dns_name lib data (int (length pre))
           = Inr (dotted_name lib ls, int (length pre + length (encode_labels ls) + 1))"
    if "wf_labels ls \<and> data = pre @ encode_labels ls @ [0] @ post" for pre ls post
    using that decode_dns_name_root by blast
  show "decode_dns_name lib data (int (length pre))
           = Inr (dotted_name lib (ls1 @ ls2 @ ls2),
                  int (length pre + length (encode_labels ls1) + length (encode_labels ls2) + 2))"
    if "wf_labels ls1 \<and> wf_labels ls2
         \<and> data = pre @ encode_labels ls1 @ encode_labels ls2 @ [hi, lo] @ post
         \<and> pointer_at data (length pre + length (encode_labels ls1) + length (encode_labels ls2))
             = Some (length pre + length (encode_labels ls1))"
    for pre ls1 ls2 hi lo post
    using that decode_dns_name_cycle by blast
qed

theorem decode_dns_name_behaviour_witness:
  "- int (length label_then_self_pointer) \<le> 0
   \<and> wf_labels [[0x61]] \<and> wf_labels []
   \<and> label_then_self_pointer = [] @ encode_labels [[0x61]] @ encode_labels [] @ [0xC0, 0x02] @ []
   \<and> pointer_at label_then_self_pointer 2 = Some 2
   \<and> decode_dns_name ascii_lib label_then_self_pointer 0 = Inr (''a'', 4)
   \<and> decode_loop ascii_lib label_then_self_pointer [] 0 0 False []
       = Inr ([''a''], 2, 4, True, [2])
   \<and> decode_loop ascii_lib label_then_self_pointer [''a''] 2 4 True [2]
       = Inr ([''a''], 2, 4, True, [2])
   \<and> looping_name = [0xFF] @ encode_labels [[0x61]] @ encode_labels [[0x62]] @ [0xC0, 0x03] @ []
   \<and> pointer_at looping_name 5 = Some 3
   \<and> decode_dns_name ascii_lib looping_name 1 = Inr (''a.b.b'', 7)
   \<and> decode_dns_name ascii_lib ([3, 0x77, 0x77, 0x77] @ [0] @ [7]) 0 = Inr (''www'', 5)
   \<and> decode_dns_name ascii_lib [0] (- 1) = Inr ([], 0)
   \<and> decode_dns_name ascii_lib [0] (- 2) = Inl IndexError"
proof -
  note t1 = decode_dns_name_behaviour [of label_then_self_pointer 0 ascii_lib]
  note t2 = decode_dns_name_behaviour [of looping_name 1 ascii_lib]
  note t3 = decode_dns_name_behaviour [of "[3, 0x77, 0x77, 0x77] @ [0] @ [7]" 0 ascii_lib]
  note t4 = decode_dns_name_behaviour [of "[0]" "- 2" ascii_lib]
  have w1: "wf_labels [[0x61]]" "wf_labels []" "wf_labels [[0x62]]" "wf_labels [[0x77, 0x77, 0x77]]"
    by (simp_all add: wf_labels_def)
  have l1: "label_then_self_pointer
              = [] @ encode_labels [[0x61]] @ encode_labels [] @ [0xC0, 0x02] @ []"
    by (simp add: label_then_self_pointer_def)
  have p1: "pointer_at label_then_self_pointer 2 = Some 2"
    by (simp add: label_then_self_pointer_def pointer_at_def)
  have p1': "pointer_at label_then_self_pointer
               (length ([]::byte list) + length (encode_labels [[0x61]]) + length (encode_labels []))
             = Some (length ([]::byte list) + length (encode_labels [[0x61]]))"
    by (simp add: label_then_self_pointer_def pointer_at_def)
  have d1: "dotted_name ascii_lib ([[0x61]] @ [] @ []) = ''a''" by code_simp
  from t1 w1(1,2) l1 p1' have
    "decode_dns_name ascii_lib label_then_self_pointer (int (length ([]::byte list)))
       = Inr (dotted_name ascii_lib ([[0x61]] @ [] @ []),
              int (length ([]::byte list) + length (encode_labels [[0x61]])
                   + length (encode_labels []) + 2))"
    by blast
  then have r1: "decode_dns_name ascii_lib label_then_self_pointer 0 = Inr (''a'', 4)"
    unfolding d1 by simp
  have s1: "decode_loop ascii_lib label_then_self_pointer [] 0 0 False []
       = Inr ([''a''], 2, 4, True, [2])"
    by code_simp
  from t1 have "pointer_at label_then_self_pointer 2 = Some 2 \<and> 2 \<in> set [2::nat] \<longrightarrow>
      decode_loop ascii_lib label_then_self_pointer [''a''] (int 2) 4 True [2]
        = Inr ([''a''], int 2, 4, True, [2])"
    by blast
  with p1 have s2: "decode_loop ascii_lib label_then_self_pointer [''a''] 2 4 True [2]
       = Inr ([''a''], 2, 4, True, [2])"
    by simp
  have l2: "looping_name = [0xFF] @ encode_labels [[0x61]] @ encode_labels [[0x62]] @ [0xC0, 0x03] @ []"
    by (simp add: looping_name_def)
  have p2: "pointer_at looping_name 5 = Some 3"
    by (simp add: looping_name_def pointer_at_def)
  have p2': "pointer_at looping_name
               (length [0xFF::byte] + length (encode_labels [[0x61]]) + length (encode_labels [[0x62]]))
             = Some (length [0xFF::byte] + length (encode_labels [[0x61]]))"
    by (simp add: looping_name_def pointer_at_def)
  have d2: "dotted_name ascii_lib ([[0x61]] @ [[0x62]] @ [[0x62]]) = ''a.b.b''" by code_simp
  from t2 w1(1,3) l2 p2' have
    "decode_dns_name ascii_lib looping_name (int (length [0xFF::byte]))
       = Inr (dotted_name ascii_lib ([[0x61]] @ [[0x62]] @ [[0x62]]),
              int (length [0xFF::byte] + length (encode_labels [[0x61]])
                   + length (encode_labels [[0x62]]) + 2))"
    by blast
  then have r2: "decode_dns_name ascii_lib looping_name 1 = Inr (''a.b.b'', 7)"
    unfolding d2 by simp
  have d3: "dotted_name ascii_lib [[0x77, 0x77, 0x77]] = ''www''" by code_simp
  have l3: "[3, 0x77, 0x77, 0x77] @ [0] @ [7]
              = [] @ encode_labels [[0x77, 0x77, 0x77]] @ [0] @ [7::byte]"
    by simp
  from t3 w1(4) l3 have
    "decode_dns_name ascii_lib ([3, 0x77, 0x77, 0x77] @ [0] @ [7]) (int (length ([]::byte list)))
       = Inr (dotted_name ascii_lib [[0x77, 0x77, 0x77]],
              int (length ([]::byte list) + length (encode_labels [[0x77, 0x77, 0x77]]) + 1))"
    by blast
  then have r3: "decode_dns_name ascii_lib ([3, 0x77, 0x77, 0x77] @ [0] @ [7]) 0 = Inr (''www'', 5)"
    unfolding d3 by simp
  have r4: "decode_dns_name ascii_lib [0] (- 1) = Inr ([], 0)" by code_simp
  from t4 have r5: "decode_dns_name ascii_lib [0] (- 2) = Inl IndexError" by simp
  have a: "- int (length label_then_self_pointer) \<le> 0" by simp
  show ?thesis
    using a w1(1,2) l1 p1 r1 s1 s2 l2 p2 r2 r3 r4 r5 by blast
qed

text \<open>
  C3 as stated fails for a starting offset below \<open>-len(data)\<close>: the function raises
  \<open>IndexError\<close>.
\<close>

theorem decode_dns_name_behaviour_counterexample:
  "decode_dns_name ascii_lib [] (- 1) = Inl IndexError
   \<and> decode_dns_name ascii_lib example_query (- 30) = Inl IndexError"
  by code_simp

section \<open>extract\_query\_domain and the SERVFAIL path\<close>

text \<open>
  The callers start at offset 12 and go on from the offsets \<open>decode_dns_name\<close> returns,
  none of them negative. In the proofs below their equations are used in this form, over
  \<open>decode_dns_name_nat\<close>.
\<close>

lemma question_loop_Suc:
  "question_loop lib payload (Suc n) offset =
     (case decode_dns_name_nat lib payload offset of
        Inl e \<Rightarrow> Inl e
      | Inr (_, offset1) \<Rightarrow>
          if offset1 + 4 > length payload then Inr None
          else question_loop lib payload n (offset1 + 4))"
  by (simp add: decode_dns_name_nonneg Let_def split: sum.splits prod.splits)

lemma answer_loop_Suc:
  "answer_loop lib payload (Suc n) offset ips =
     (case decode_dns_name_nat lib payload offset of
        Inl e \<Rightarrow> Inl e
      | Inr (_, offset1) \<Rightarrow>
          if offset1 + 10 > length payload then Inr ips
          else case unpack_HHIH (pyslice payload offset1 (offset1 + 10)) of
            Inl e \<Rightarrow> Inl e
          | Inr (rtype, rclass, ttl, rdlen) \<Rightarrow>
              let offset2 = offset1 + 10 in
              if offset2 + rdlen > length payload then Inr ips
              else
                let rdata = pyslice payload offset2 (offset2 + rdlen);
                    offset3 = offset2 + rdlen
                in if rclass \<noteq> 1 then answer_loop lib payload n offset3 ips
                   else if rtype = 1 \<and> rdlen = 4 then
                     (case inet_ntoa rdata of
                        Inl e \<Rightarrow> Inl e
                      | Inr a \<Rightarrow> answer_loop lib payload n offset3 (insert a ips))
                   else if rtype = 28 \<and> rdlen = 16 then
                     (case inet_ntop_AF_INET6 lib rdata of
                        Inl e \<Rightarrow> Inl e
                      | Inr a \<Rightarrow> answer_loop lib payload n offset3 (insert a ips))
                   else answer_loop lib payload n offset3 ips)"
proof (cases "decode_dns_name_nat lib payload offset")
  case (Inl e)
  then show ?thesis by (simp add: decode_dns_name_nonneg)
next
  case (Inr r)
  obtain name e where "r = (name, e)" by (cases r) blast
  with Inr show ?thesis
    by (simp only: answer_loop.simps decode_dns_name_nonneg sum.case prod.case Let_def nat_int)
qed

declare question_loop.simps(2) [simp del] answer_loop.simps(2) [simp del]
declare question_loop_Suc [simp] answer_loop_Suc [simp]

lemmas question_loop_nat = question_loop.simps(1) question_loop_Suc
lemmas answer_loop_nat = answer_loop.simps(1) answer_loop_Suc

lemma extract_query_domain_nat:
  "extract_query_domain lib payload =
     (if length payload < 12 then Inr None
      else case unpack_H (pyslice payload 4 6) of
        Inl e \<Rightarrow> Inl e
      | Inr qdcount \<Rightarrow>
          if qdcount = 0 then Inr None
          else case decode_dns_name_nat lib payload 12 of
            Inl e \<Rightarrow> Inl e
          | Inr (domain, _) \<Rightarrow> Inr (if domain \<noteq> [] then Some domain else None))"
  by (simp add: extract_query_domain_def decode_dns_name_12 split: sum.splits prod.splits)

lemma reads_past_end_nat:
  "reads_past_end lib payload offset =
     (case decode_dns_name_nat lib payload offset of
        Inl e \<Rightarrow> False
      | Inr (_, e) \<Rightarrow>
          e + 10 > length payload
          \<or> e + 10 + be_int (pyslice payload (e + 8) (e + 10)) > length payload)"
  by (simp add: reads_past_end_def decode_dns_name_nonneg Let_def split: sum.splits prod.splits)

lemma decode_dns_name_empty_12:
  "(\<exists>e. decode_dns_name lib payload 12 = Inr ([], e))
     = (\<exists>e. decode_dns_name_nat lib payload 12 = Inr ([], e))"
  by (auto simp add: decode_dns_name_12 split: sum.splits prod.splits)

lemma unpack_H_total: "length b = 2 \<Longrightarrow> unpack_H b = Inr (be_int b)"
  by (simp add: unpack_H_def)

lemma extract_query_domain_total: "\<exists>d. extract_query_domain lib payload = Inr d"
proof -
  obtain name e where "decode_dns_name_nat lib payload 12 = Inr (name, e)"
    using decode_dns_name_nat_total by blast
  then show ?thesis
    by (simp add: extract_query_domain_nat unpack_H_def pyslice_def)
qed

text \<open>
  C10. \<open>extract_query_domain\<close> always returns, and never the empty string: it returns
  \<open>None\<close> for a payload shorter than 12 bytes, for a question count of zero, and also
  whenever the name at offset 12 decodes to the empty name, as for a root-domain query.
\<close>

theorem extract_query_domain_nonempty:
  "(\<exists>d. extract_query_domain lib payload = Inr d)
   \<and> extract_query_domain lib payload \<noteq> Inr (Some [])
   \<and> (length payload < 12 \<longrightarrow> extract_query_domain lib payload = Inr None)
   \<and> (12 \<le> length payload \<and> be_int (pyslice payload 4 6) = 0 \<longrightarrow>
         extract_query_domain lib payload = Inr None)
   \<and> (12 \<le> length payload \<and> (\<exists>e. decode_dns_name lib payload 12 = Inr ([], e)) \<longrightarrow>
         extract_query_domain lib payload = Inr None)"
proof (intro conjI impI)
  show "\<exists>d. extract_query_domain lib payload = Inr d" by (rule extract_query_domain_total)
  obtain name e where d: "decode_dns_name_nat lib payload 12 = Inr (name, e)"
    using decode_dns_name_nat_total by blast
  show "extract_query_domain lib payload \<noteq> Inr (Some [])"
    using d by (simp add: extract_query_domain_nat unpack_H_def pyslice_def)
  show "extract_query_domain lib payload = Inr None" if "length payload < 12"
    using that by (simp add: extract_query_domain_nat)
  show "extract_query_domain lib payload = Inr None"
    if "12 \<le> length payload \<and> be_int (pyslice payload 4 6) = 0"
    using that pyslice_4_6_length [of payload]
    by (simp add: extract_query_domain_nat unpack_H_def)
  show "extract_query_domain lib payload = Inr None"
    if "12 \<le> length payload \<and> (\<exists>e. decode_dns_name lib payload 12 = Inr ([], e))"
    using that pyslice_4_6_length [of payload] unfolding decode_dns_name_empty_12
    by (auto simp add: extract_query_domain_nat unpack_H_def)
qed

theorem extract_query_domain_nonempty_witness:
  "12 \<le> length root_query
   \<and> decode_dns_name ascii_lib root_query 12 = Inr ([], 13)
   \<and> extract_query_domain ascii_lib root_query = Inr None
   \<and> extract_query_domain ascii_lib (take 11 root_query) = Inr None"
proof -
  have l: "12 \<le> length root_query" by (simp add: root_query_def)
  have d: "decode_dns_name ascii_lib root_query 12 = Inr ([], 13)" by code_simp
  have s: "length (take 11 root_query) < 12" by simp
  show ?thesis
    using l d s extract_query_domain_nonempty [of ascii_lib root_query]
      extract_query_domain_nonempty [of ascii_lib "take 11 root_query"]
    by blast
qed

lemma question_loop_total: "\<exists>x. question_loop lib payload n offset = Inr x"
proof (induction n arbitrary: offset)
  case 0
  show ?case by simp
next
  case (Suc n)
  obtain name e where "decode_dns_name_nat lib payload offset = Inr (name, e)"
    using decode_dns_name_nat_total by blast
  with Suc show ?case by simp
qed

lemma extract_answer_ips_servfail:
  assumes "12 \<le> length query"
  shows "extract_answer_ips lib
           (take 2 query @ [0x81, 0x82] @ pyslice query 4 6 @ [0, 0, 0, 0, 0, 0] @ drop 12 query)
         = Inr []"
proof -
  let ?r = "take 2 query @ [0x81, 0x82] @ pyslice query 4 6 @ [0, 0, 0, 0, 0, 0] @ drop 12 query"
  have len: "\<not> length ?r < 12" using assms by (simp add: pyslice_def)
  have s1: "length (pyslice ?r 4 6) = 2" unfolding pyslice_def using assms by simp
  have s2: "pyslice ?r 6 8 = [0, 0]" unfolding pyslice_def using assms by simp
  have an: "unpack_H (pyslice ?r 6 8) = Inr 0"
    unfolding s2 by (simp add: unpack_H_def be_int_def)
  obtain x where q: "question_loop lib ?r (be_int (pyslice ?r 4 6)) 12 = Inr x"
    using question_loop_total by blast
  show ?thesis
    unfolding extract_answer_ips_def using len an q unpack_H_total [OF s1]
    by (cases x) simp_all
qed

lemma servfail_fields:
  assumes "12 \<le> length query"
  defines "r \<equiv> take 2 query @ [0x81, 0x82] @ pyslice query 4 6 @ [0, 0, 0, 0, 0, 0]
                   @ drop 12 query"
  shows "length r = length query" "take 2 r = take 2 query" "pyslice r 2 4 = [0x81, 0x82]"
    "pyslice r 4 6 = pyslice query 4 6" "pyslice r 6 12 = [0, 0, 0, 0, 0, 0]"
    "drop 12 r = drop 12 query" "unpack_H (pyslice r 6 8) = Inr 0"
proof -
  have l2: "length (take 2 query) = 2" using assms(1) by simp
  have l4: "length (pyslice query 4 6) = 2" using assms(1) by (rule pyslice_4_6_length)
  show "length r = length query" unfolding r_def using assms(1) l4 by simp
  show "take 2 r = take 2 query" unfolding r_def using l2 by simp
  show "pyslice r 2 4 = [0x81, 0x82]" unfolding r_def pyslice_def using assms(1) by simp
  show "pyslice r 4 6 = pyslice query 4 6" unfolding r_def pyslice_def using assms(1) by simp
  show "pyslice r 6 12 = [0, 0, 0, 0, 0, 0]" unfolding r_def pyslice_def using assms(1) by simp
  show "drop 12 r = drop 12 query" unfolding r_def using l2 l4 by simp
  have "pyslice r 6 8 = [0, 0]" unfolding r_def pyslice_def using assms(1) by simp
  then show "unpack_H (pyslice r 6 8) = Inr 0" by (simp add: unpack_H_def be_int_def)
qed

text \<open>
  C8. When forwarding fails (\<open>forward_udp\<close> returns \<open>None\<close>) for a query of at least 12
  bytes, the response is the message \<open>make_servfail\<close> builds: as long as the query, with
  the query's transaction ID, the flag bytes \<open>0x81 0x82\<close> (a response with the return
  code 2, SERVFAIL), the query's question count, zero answer, authority and additional
  counts, and the query's bytes from offset 12 on. Its answer count reads as 0 and
  \<open>extract_answer_ips\<close> finds no address in it. The datagram loop sends this very
  message and calls \<open>record_event\<close> with the domain of the query, or \<open>unknown\<close> when
  it has none, and the empty IP list.
\<close>

theorem servfail_has_no_ips:
  "12 \<le> length query \<Longrightarrow>
   \<exists>r d. make_servfail query = Some r
      \<and> length r = length query
      \<and> take 2 r = take 2 query
      \<and> pyslice r 2 4 = [0x81, 0x82]
      \<and> pyslice r 4 6 = pyslice query 4 6
      \<and> pyslice r 6 12 = [0, 0, 0, 0, 0, 0]
      \<and> drop 12 r = drop 12 query
      \<and> unpack_H (pyslice r 6 8) = Inr 0
      \<and> extract_answer_ips lib r = Inr []
      \<and> extract_query_domain lib query = Inr d
      \<and> udp_exchange lib query None True
          = Inr (Some r, Some (case d of None \<Rightarrow> ''unknown'' | Some name \<Rightarrow> name, []))"
proof -
  assume len: "12 \<le> length query"
  let ?r = "take 2 query @ [0x81, 0x82] @ pyslice query 4 6 @ [0, 0, 0, 0, 0, 0] @ drop 12 query"
  obtain d where d: "extract_query_domain lib query = Inr d"
    using extract_query_domain_total by blast
  have m: "make_servfail query = Some ?r" by (rule servfail_some [OF len])
  have e: "extract_answer_ips lib ?r = Inr []" by (rule extract_answer_ips_servfail [OF len])
  have u: "udp_exchange lib query None True
          = Inr (Some ?r, Some (case d of None \<Rightarrow> ''unknown'' | Some name \<Rightarrow> name, []))"
    using m e d by (simp add: udp_exchange_def)
  show ?thesis
    using m servfail_fields [OF len] e d u by blast
qed

theorem servfail_has_no_ips_witness:
  "12 \<le> length example_query
   \<and> (\<exists>r. make_servfail example_query = Some r
         \<and> length r = length example_query
         \<and> take 2 r = [0x12, 0x34]
         \<and> pyslice r 2 4 = [0x81, 0x82]
         \<and> pyslice r 4 6 = [0x00, 0x01]
         \<and> pyslice r 6 12 = [0, 0, 0, 0, 0, 0]
         \<and> drop 12 r = drop 12 example_query
         \<and> extract_answer_ips ascii_lib r = Inr []
         \<and> udp_exchange ascii_lib example_query None True
             = Inr (Some r, Some (''example.com'', [])))"
proof -
  have l: "12 \<le> length example_query" by (simp add: example_query_def)
  have d: "extract_query_domain ascii_lib example_query = Inr (Some ''example.com'')" by code_simp
  have t: "take 2 example_query = [0x12, 0x34]" "pyslice example_query 4 6 = [0x00, 0x01]"
    by (simp_all add: example_query_def pyslice_def)
  from servfail_has_no_ips [OF l, of ascii_lib] obtain r d' where
    r: "make_servfail example_query = Some r" "length r = length example_query"
      "take 2 r = take 2 example_query" "pyslice r 2 4 = [0x81, 0x82]"
      "pyslice r 4 6 = pyslice example_query 4 6" "pyslice r 6 12 = [0, 0, 0, 0, 0, 0]"
      "drop 12 r = drop 12 example_query" "extract_answer_ips ascii_lib r = Inr []"
      "extract_query_domain ascii_lib example_query = Inr d'"
      "udp_exchange ascii_lib example_query None True
          = Inr (Some r, Some (case d' of None \<Rightarrow> ''unknown'' | Some name \<Rightarrow> name, []))"
    by blast
  from r(9) d have "d' = Some ''example.com''" by simp
  with r(10) have u: "udp_exchange ascii_lib example_query None True
             = Inr (Some r, Some (''example.com'', []))"
    by simp
  have r3: "take 2 r = [0x12, 0x34]" using r(3) t(1) by (rule trans)
  have r5: "pyslice r 4 6 = [0x00, 0x01]" using r(5) t(2) by (rule trans)
  show ?thesis using l r(1,2,4,6,7,8) r3 r5 u by blast
qed

section \<open>extract\_answer\_ips on well-formed messages\<close>

lemma decode_loop_nat_jumped_gen:
  "decode_loop_nat lib data labels cursor end_offset jumped seen = Inr (labels', cursor', e', j', seen')
   \<Longrightarrow> jumped \<Longrightarrow> e' = end_offset"
proof (induction lib data labels cursor end_offset jumped seen rule: decode_loop_nat.induct)
  case (1 lib data labels cursor end_offset jumped seen)
  show ?case
  proof (cases "cursor \<ge> length data")
    case True
    with "1.prems" show ?thesis by (subst (asm) decode_loop_nat.simps) simp
  next
    case False
    then have g: "getitem_nat data cursor = Inr (unat (data ! cursor))" by (simp add: getitem_nat_def)
    show ?thesis
    proof (cases "cursor + 1 \<ge> length data")
      case True
      with False g "1.prems" show ?thesis
        using "1.IH"(2)
        by (subst (asm) decode_loop_nat.simps) (auto simp: Let_def split: if_splits)
    next
      case c1: False
      then have g1: "getitem_nat data (cursor + 1) = Inr (unat (data ! (cursor + 1)))"
        by (simp add: getitem_nat_def)
      from False c1 g g1 "1.prems" show ?thesis
        using "1.IH" by (subst (asm) decode_loop_nat.simps) (auto simp: Let_def split: if_splits)
    qed
  qed
qed

lemma decode_loop_nat_jumped:
  "decode_loop_nat lib data labels cursor end_offset True seen = Inr (labels', cursor', e', j', seen')
   \<Longrightarrow> e' = end_offset"
  using decode_loop_nat_jumped_gen [of lib data labels cursor end_offset True seen] by simp

lemma decode_loop_nat_end:
  assumes "wf_end t"
  shows "\<exists>labels' cursor' j' seen'.
           decode_loop_nat lib (pre @ encode_end t @ post) labels (length pre) e False []
             = Inr (labels', cursor', length pre + length (encode_end t), j', seen')"
proof (cases t)
  case Root
  then show ?thesis
    by (subst decode_loop_nat.simps) (auto simp add: getitem_nat_def nth_append)
next
  case (Pointer hi lo)
  let ?data = "pre @ encode_end t @ post"
  have p: "pointer_at ?data (length pre)
             = Some ((push_bit 8 (unat hi AND 0x3F)) OR unat lo)"
    using assms Pointer by (simp add: pointer_at_def nth_append)
  obtain r where r: "decode_loop_nat lib ?data labels ((push_bit 8 (unat hi AND 0x3F)) OR unat lo)
                        (length pre + 2) True [(push_bit 8 (unat hi AND 0x3F)) OR unat lo] = Inr r"
    using decode_loop_nat_total by blast
  obtain l' c' e' j' s' where r': "r = (l', c', e', j', s')" by (cases r) blast
  from r r' decode_loop_nat_jumped have "e' = length pre + 2" by blast
  with r r' decode_loop_nat_jump [OF p, of "[]" lib labels e False] Pointer
  show ?thesis by simp
qed

lemma decode_loop_nat_labels:
  assumes "list_all (\<lambda>l. 1 \<le> length l \<and> length l \<le> 63) ls" "wf_end t"
  shows "\<exists>labels' cursor' j' seen'.
           decode_loop_nat lib (pre @ encode_labels ls @ encode_end t @ post) labels (length pre) e False []
             = Inr (labels', cursor', length pre + length (encode_labels ls) + length (encode_end t),
                    j', seen')"
  using assms(1)
proof (induction ls arbitrary: pre labels e)
  case Nil
  show ?case using decode_loop_nat_end [OF assms(2), of lib pre post labels e] by simp
next
  case (Cons l ls)
  let ?data = "pre @ encode_labels (l # ls) @ encode_end t @ post"
  let ?pre' = "pre @ of_nat (length l) # l"
  have l: "1 \<le> length l" "length l \<le> 63" and rest: "list_all (\<lambda>l. 1 \<le> length l \<and> length l \<le> 63) ls"
    using Cons.prems by simp_all
  have data: "?data = ?pre' @ encode_labels ls @ encode_end t @ post" by simp
  have g: "getitem_nat ?data (length pre) = Inr (length l)"
    using l by (simp add: getitem_nat_def nth_append unat_byte)
  have a1: "length l AND 192 = 0" using l by (simp add: small_and_192)
  have ne: "l \<noteq> []" using l by auto
  have sl: "pyslice ?data (length pre + 1) (length pre + 1 + length l) = l"
    by (simp add: pyslice_def)
  have step: "decode_loop_nat lib ?data labels (length pre) e False []
        = decode_loop_nat lib ?data (labels @ [utf8_ignore lib l]) (length ?pre') (length ?pre') False []"
    using l g a1 sl ne
    by (subst decode_loop_nat.simps [of lib ?data labels "length pre" e False "[]"])
       (simp add: Let_def)
  from Cons.IH [OF rest, of ?pre' "labels @ [utf8_ignore lib l]" "length ?pre'"]
  obtain l' c' j' s' where ih:
    "decode_loop_nat lib (?pre' @ encode_labels ls @ encode_end t @ post)
       (labels @ [utf8_ignore lib l]) (length ?pre') (length ?pre') False []
     = Inr (l', c', length ?pre' + length (encode_labels ls) + length (encode_end t), j', s')"
    by blast
  have eq: "length ?pre' + length (encode_labels ls) + length (encode_end t)
              = length pre + length (encode_labels (l # ls)) + length (encode_end t)"
    by simp
  have "decode_loop_nat lib ?data labels (length pre) e False []
          = decode_loop_nat lib ?data (labels @ [utf8_ignore lib l]) (length ?pre') (length ?pre')
              False []"
    by (rule step)
  also have "\<dots> = decode_loop_nat lib (?pre' @ encode_labels ls @ encode_end t @ post)
                       (labels @ [utf8_ignore lib l]) (length ?pre') (length ?pre') False []"
    by (simp only: data)
  also note ih
  finally show ?case unfolding eq by blast
qed

lemma decode_dns_name_nat_wire:
  assumes "wf_name n"
  shows "\<exists>name. decode_dns_name_nat lib (pre @ encode_name n @ post) (length pre)
                  = Inr (name, length pre + length (encode_name n))"
proof -
  have ne: "length (encode_end (snd n)) > 0" by (cases "snd n") simp_all
  from assms decode_loop_nat_labels [of "fst n" "snd n" lib pre post "[]" "length pre"]
  obtain labels' cursor' j' seen' where
    "decode_loop_nat lib (pre @ encode_name n @ post) [] (length pre) (length pre) False []
       = Inr (labels', cursor', length pre + length (encode_name n), j', seen')"
    by (auto simp: wf_name_def encode_name_def)
  then show ?thesis using ne
    by (simp add: decode_dns_name_nat_def encode_name_def)
qed

lemma be_int_be16: "n < 65536 \<Longrightarrow> be_int (be16 n) = n"
  by (simp add: be_int_def be16_def unat_byte)

lemma length_be16 [simp]: "length (be16 n) = 2" by (simp add: be16_def)
lemma length_be32 [simp]: "length (be32 n) = 4" by (simp add: be32_def)

lemma pyslice_mid: "pyslice (a @ b @ c) (length a) (length a + length b) = b"
  by (simp add: pyslice_def)

lemma pyslice_mid': "n = length a \<Longrightarrow> m = length a + length b \<Longrightarrow> pyslice (a @ b @ c) n m = b"
  by (simp add: pyslice_def)

lemma unpack_fixed:
  assumes "t < 65536" "c < 65536" "n < 65536"
  shows "unpack_HHIH (be16 t @ be16 c @ be32 ttl @ be16 n) = Inr (t, c, be_int (be32 ttl), n)"
proof -
  have "pyslice (be16 t @ be16 c @ be32 ttl @ be16 n) 0 2 = be16 t"
    by (simp add: pyslice_def)
  moreover have "pyslice (be16 t @ be16 c @ be32 ttl @ be16 n) 2 4 = be16 c"
    by (simp add: pyslice_def)
  moreover have "pyslice (be16 t @ be16 c @ be32 ttl @ be16 n) 4 8 = be32 ttl"
    by (simp add: pyslice_def)
  moreover have "pyslice (be16 t @ be16 c @ be32 ttl @ be16 n) 8 10 = be16 n"
    by (simp add: pyslice_def)
  ultimately show ?thesis
    using assms by (simp add: unpack_HHIH_def be_int_be16)
qed

lemma question_step:
  assumes "wf_question q"
  shows "question_loop lib (pre @ encode_question q @ post) (Suc n) (length pre)
           = question_loop lib (pre @ encode_question q @ post) n (length pre + length (encode_question q))"
proof -
  let ?payload = "pre @ encode_question q @ post"
  have p: "?payload = pre @ encode_name (q_name q) @ (be16 (q_type q) @ be16 (q_class q) @ post)"
    by (simp add: encode_question_def)
  obtain name where d: "decode_dns_name_nat lib ?payload (length pre)
                          = Inr (name, length pre + length (encode_name (q_name q)))"
    unfolding p using decode_dns_name_nat_wire assms unfolding wf_question_def by blast
  have len: "\<not> length pre + length (encode_name (q_name q)) + 4 > length ?payload"
    by (simp add: encode_question_def)
  have l2: "length pre + length (encode_name (q_name q)) + 4 = length pre + length (encode_question q)"
    by (simp add: encode_question_def)
  show ?thesis
    using d len by (simp only: question_loop_nat sum.case prod.case if_False l2)
qed

lemma question_loop_wire:
  "list_all wf_question qs \<Longrightarrow>
   question_loop lib (pre @ concat (map encode_question qs) @ post) (length qs) (length pre)
     = Inr (Some (length pre + length (concat (map encode_question qs))))"
proof (induction qs arbitrary: pre)
  case Nil
  show ?case by simp
next
  case (Cons q qs)
  let ?post = "concat (map encode_question qs) @ post"
  have a: "pre @ concat (map encode_question (q # qs)) @ post = pre @ encode_question q @ ?post"
    by simp
  have b: "pre @ encode_question q @ ?post = (pre @ encode_question q) @ ?post" by simp
  have "question_loop lib (pre @ encode_question q @ ?post) (Suc (length qs)) (length pre)
          = question_loop lib (pre @ encode_question q @ ?post) (length qs)
              (length (pre @ encode_question q))"
    using question_step [of q lib pre ?post "length qs"] Cons.prems by simp
  also have "\<dots> = question_loop lib ((pre @ encode_question q) @ ?post) (length qs)
              (length (pre @ encode_question q))"
    by (simp only: b)
  also have "\<dots> = Inr (Some (length (pre @ encode_question q) + length (concat (map encode_question qs))))"
    using Cons.IH [of "pre @ encode_question q"] Cons.prems by simp
  finally show ?case by (simp add: a)
qed

lemma rr_step:
  assumes "wf_rr r"
  shows "answer_loop lib (pre @ encode_rr r @ post) (Suc n) (length pre) ips
           = answer_loop lib (pre @ encode_rr r @ post) n (length pre + length (encode_rr r))
               (add_address lib r ips)"
proof -
  let ?payload = "pre @ encode_rr r @ post"
  let ?fixed = "be16 (rr_type r) @ be16 (rr_class r) @ be32 (rr_ttl r) @ be16 (length (rr_data r))"
  let ?e = "length pre + length (encode_name (rr_name r))"
  have wf: "wf_name (rr_name r)" "rr_type r < 65536" "rr_class r < 65536" "length (rr_data r) < 65536"
    using assms by (simp_all add: wf_rr_def)
  have p1: "?payload = pre @ encode_name (rr_name r) @ (?fixed @ rr_data r @ post)"
    by (simp add: encode_rr_def)
  obtain name where d: "decode_dns_name_nat lib ?payload (length pre) = Inr (name, ?e)"
    unfolding p1 using decode_dns_name_nat_wire [OF wf(1)] by blast
  have len1: "\<not> ?e + 10 > length ?payload" by (simp add: encode_rr_def)
  have p2: "?payload = (pre @ encode_name (rr_name r)) @ ?fixed @ (rr_data r @ post)"
    by (simp add: encode_rr_def)
  have s1: "pyslice ?payload ?e (?e + 10) = ?fixed"
    unfolding p2 by (rule pyslice_mid') simp_all
  have u: "unpack_HHIH (pyslice ?payload ?e (?e + 10))
             = Inr (rr_type r, rr_class r, be_int (be32 (rr_ttl r)), length (rr_data r))"
    unfolding s1 using wf by (rule_tac unpack_fixed)
  have len2: "\<not> ?e + 10 + length (rr_data r) > length ?payload" by (simp add: encode_rr_def)
  have p3: "?payload = (pre @ encode_name (rr_name r) @ ?fixed) @ rr_data r @ post"
    by (simp add: encode_rr_def)
  have s2: "pyslice ?payload (?e + 10) (?e + 10 + length (rr_data r)) = rr_data r"
    unfolding p3 by (rule pyslice_mid') simp_all
  have l3: "?e + 10 + length (rr_data r) = length pre + length (encode_rr r)"
    by (simp add: encode_rr_def)
  have s2': "pyslice ?payload (?e + 10) (length pre + length (encode_rr r)) = rr_data r"
    using s2 unfolding l3 .
  have "answer_loop lib ?payload (Suc n) (length pre) ips
        = (if rr_class r \<noteq> 1 then answer_loop lib ?payload n (length pre + length (encode_rr r)) ips
           else if rr_type r = 1 \<and> length (rr_data r) = 4 then
             (case inet_ntoa (rr_data r) of
                Inl e \<Rightarrow> Inl e
              | Inr a \<Rightarrow> answer_loop lib ?payload n (length pre + length (encode_rr r)) (insert a ips))
           else if rr_type r = 28 \<and> length (rr_data r) = 16 then
             (case inet_ntop_AF_INET6 lib (rr_data r) of
                Inl e \<Rightarrow> Inl e
              | Inr a \<Rightarrow> answer_loop lib ?payload n (length pre + length (encode_rr r)) (insert a ips))
           else answer_loop lib ?payload n (length pre + length (encode_rr r)) ips)"
    using d len1 u len2
    by (simp only: answer_loop_nat sum.case prod.case if_False Let_def s2 s2' l3)
  also have "\<dots> = answer_loop lib ?payload n (length pre + length (encode_rr r)) (add_address lib r ips)"
    by (simp add: add_address_def rr_address_def inet_ntoa_def inet_ntop_AF_INET6_def)
  finally show ?thesis .
qed

lemma answer_loop_past_end:
  assumes "reads_past_end lib payload offset"
  shows "answer_loop lib payload (Suc n) offset ips = Inr ips"
proof -
  obtain name e where d: "decode_dns_name_nat lib payload offset = Inr (name, e)"
    using decode_dns_name_nat_total by blast
  show ?thesis
  proof (cases "e + 10 > length payload")
    case True
    with d show ?thesis by simp
  next
    case False
    with assms d have r: "e + 10 + be_int (pyslice payload (e + 8) (e + 10)) > length payload"
      by (simp add: reads_past_end_nat)
    have l: "length (pyslice payload e (e + 10)) = 10" using False by (simp add: pyslice_def)
    have s: "pyslice (pyslice payload e (e + 10)) 8 10 = pyslice payload (e + 8) (e + 10)"
      using False by (simp add: pyslice_def take_drop add.commute)
    obtain t c ttl where u: "unpack_HHIH (pyslice payload e (e + 10))
               = Inr (t, c, ttl, be_int (pyslice payload (e + 8) (e + 10)))"
      using l s by (simp add: unpack_HHIH_def)
    show ?thesis
      using d False u r by (simp only: answer_loop_nat sum.case prod.case if_False if_True Let_def)
  qed
qed

lemma addresses_Cons: "addresses lib (r # rs) = add_address lib r {} \<union> addresses lib rs"
  by (simp add: addresses_def add_address_def List.map_filter_simps split: option.splits)

lemma add_address_un: "add_address lib r ips = ips \<union> add_address lib r {}"
  by (simp add: add_address_def split: option.splits)

lemma answer_loop_wire:
  assumes "list_all wf_rr rs"
    and "n = length rs \<or> (length rs < n \<and>
           reads_past_end lib (pre @ concat (map encode_rr rs) @ post)
             (length pre + length (concat (map encode_rr rs))))"
  shows "answer_loop lib (pre @ concat (map encode_rr rs) @ post) n (length pre) ips
           = Inr (ips \<union> addresses lib rs)"
  using assms
proof (induction rs arbitrary: pre n ips)
  case Nil
  show ?case
  proof (cases n)
    case 0
    then show ?thesis by (simp add: addresses_def List.map_filter_simps)
  next
    case (Suc m)
    with Nil.prems have "reads_past_end lib (pre @ post) (length pre)" by simp
    from answer_loop_past_end [OF this, of m ips] Suc
    show ?thesis by (simp add: addresses_def List.map_filter_simps)
  qed
next
  case (Cons r rs)
  let ?post = "concat (map encode_rr rs) @ post"
  let ?pre' = "pre @ encode_rr r"
  from Cons.prems obtain m where n: "n = Suc m" by (cases n) auto
  have wf: "wf_rr r" "list_all wf_rr rs" using Cons.prems by simp_all
  have a: "pre @ concat (map encode_rr (r # rs)) @ post = pre @ encode_rr r @ ?post" by simp
  have b: "pre @ encode_rr r @ ?post = ?pre' @ ?post" by simp
  have c: "length pre + length (concat (map encode_rr (r # rs)))
             = length ?pre' + length (concat (map encode_rr rs))" by simp
  have cond: "m = length rs \<or> (length rs < m \<and>
           reads_past_end lib (?pre' @ concat (map encode_rr rs) @ post)
             (length ?pre' + length (concat (map encode_rr rs))))"
    using Cons.prems(2) unfolding n a b c by simp
  have "answer_loop lib (pre @ encode_rr r @ ?post) (Suc m) (length pre) ips
          = answer_loop lib (pre @ encode_rr r @ ?post) m (length ?pre') (add_address lib r ips)"
    using rr_step [OF wf(1), of lib pre ?post m ips] by simp
  also have "\<dots> = answer_loop lib (?pre' @ ?post) m (length ?pre') (add_address lib r ips)"
    by (simp only: b)
  also have "\<dots> = Inr (add_address lib r ips \<union> addresses lib rs)"
    by (rule Cons.IH [OF wf(2) cond])
  also have "\<dots> = Inr (ips \<union> addresses lib (r # rs))"
    using add_address_un [of lib r ips] addresses_Cons [of lib r rs] by auto
  finally show ?case unfolding n a .
qed

lemma answer_loop_total: "\<exists>r. answer_loop lib payload n offset ips = Inr r"
proof (induction n arbitrary: offset ips)
  case 0
  show ?case by simp
next
  case (Suc n)
  obtain name e where d: "decode_dns_name_nat lib payload offset = Inr (name, e)"
    using decode_dns_name_nat_total by blast
  show ?case
  proof (cases "e + 10 > length payload")
    case True
    with d show ?thesis by simp
  next
    case False
    then have l: "length (pyslice payload e (e + 10)) = 10" by (simp add: pyslice_def)
    then obtain t c ttl rdlen where u: "unpack_HHIH (pyslice payload e (e + 10)) = Inr (t, c, ttl, rdlen)"
      by (simp add: unpack_HHIH_def)
    show ?thesis
    proof (cases "e + 10 + rdlen > length payload")
      case True
      with d False u show ?thesis by simp
    next
      case r: False
      then have lr: "length (pyslice payload (e + 10) (e + 10 + rdlen)) = rdlen"
        by (simp add: pyslice_def)
      from Suc [of "e + 10 + rdlen" ips]
           Suc [of "e + 10 + rdlen" "insert (join ''.'' (map (\<lambda>b. str_nat (unat b)) (pyslice payload (e + 10) (e + 10 + rdlen)))) ips"]
           Suc [of "e + 10 + rdlen" "insert (ntop6 lib (pyslice payload (e + 10) (e + 10 + rdlen))) ips"]
      show ?thesis
        using d False u r lr
        by (auto simp add: Let_def inet_ntoa_def inet_ntop_AF_INET6_def)
    qed
  qed
qed

lemma extract_answer_ips_total: "\<exists>r. extract_answer_ips lib payload = Inr r"
proof (cases "length payload < 12")
  case True
  then show ?thesis by (simp add: extract_answer_ips_def)
next
  case False
  then have a: "length (pyslice payload 4 6) = 2" "length (pyslice payload 6 8) = 2"
    by (simp_all add: pyslice_def)
  obtain x where q: "question_loop lib payload (be_int (pyslice payload 4 6)) 12 = Inr x"
    using question_loop_total by blast
  show ?thesis
  proof (cases x)
    case None
    with False a q show ?thesis by (simp add: extract_answer_ips_def unpack_H_def)
  next
    case (Some off)
    obtain r where "answer_loop lib payload (be_int (pyslice payload 6 8)) off {} = Inr r"
      using answer_loop_total by blast
    with Some False a q show ?thesis by (simp add: extract_answer_ips_def unpack_H_def)
  qed
qed

lemma finite_addresses: "finite (addresses lib rs)"
  by (simp add: addresses_def)

lemma extract_answer_ips_wire:
  assumes "wf_message m"
    and "ancount m = length (answers m) \<or>
         (length (answers m) < ancount m \<and> reads_past_end lib (encode_message m) (answers_end m))"
  shows "extract_answer_ips lib (encode_message m)
           = Inr (sorted_list_of_set (addresses lib (answers m)))"
proof -
  let ?hdr = "be16 (msg_id m) @ be16 (msg_flags m) @ be16 (length (questions m)) @ be16 (ancount m)
        @ be16 (nscount m) @ be16 (arcount m)"
  let ?qs = "concat (map encode_question (questions m))"
  let ?as = "concat (map encode_rr (answers m))"
  let ?payload = "encode_message m"
  have wf: "length (questions m) < 65536" "ancount m < 65536"
    "list_all wf_question (questions m)" "list_all wf_rr (answers m)"
    using assms(1) by (simp_all add: wf_message_def)
  have p: "?payload = ?hdr @ ?qs @ ?as @ rest m" by (simp add: encode_message_def)
  have lh: "length ?hdr = 12" by simp
  have len: "\<not> length ?payload < 12" unfolding p by simp
  have h1: "pyslice ?payload 4 6 = be16 (length (questions m))"
    unfolding p by (simp add: pyslice_def)
  have h2: "pyslice ?payload 6 8 = be16 (ancount m)"
    unfolding p by (simp add: pyslice_def)
  have qd: "unpack_H (pyslice ?payload 4 6) = Inr (length (questions m))"
    unfolding h1 using wf(1) by (simp add: unpack_H_def be_int_be16)
  have an: "unpack_H (pyslice ?payload 6 8) = Inr (ancount m)"
    unfolding h2 using wf(2) by (simp add: unpack_H_def be_int_be16)
  have q: "question_loop lib ?payload (length (questions m)) 12 = Inr (Some (12 + length ?qs))"
    unfolding p using question_loop_wire [OF wf(3), of lib ?hdr "?as @ rest m"] lh by simp
  have p2: "?payload = (?hdr @ ?qs) @ ?as @ rest m" by (simp add: encode_message_def)
  have l2: "length (?hdr @ ?qs) = 12 + length ?qs" by simp
  have cond: "ancount m = length (answers m) \<or>
         (length (answers m) < ancount m \<and>
          reads_past_end lib ((?hdr @ ?qs) @ ?as @ rest m) (length (?hdr @ ?qs) + length ?as))"
    using assms(2) unfolding p2 [symmetric] l2 answers_end_def by simp
  have a: "answer_loop lib ?payload (ancount m) (12 + length ?qs) {} = Inr (addresses lib (answers m))"
    using answer_loop_wire [OF wf(4) cond, of "{}"] unfolding p2 [symmetric] l2 by simp
  show ?thesis
    unfolding extract_answer_ips_def using len qd an q a by simp
qed

lemmas wire_defs = encode_message_def encode_question_def encode_rr_def encode_name_def
  be16_def be32_def

lemma example_response_bytes: "encode_message example_response = example_bytes"
  by (simp add: example_response_def example_bytes_def wire_defs)

lemma example_response_wf: "wf_message example_response"
  by (simp add: example_response_def wf_message_def wf_question_def wf_rr_def wf_name_def)

lemma example_bytes_ips: "extract_answer_ips ascii_lib example_bytes = Inr [''10.0.0.1'', ''93.184.216.34'']"
  by code_simp

lemma truncated_response_bytes: "encode_message truncated_response
   = example_bytes [7 := 5] @ [0xC0, 0x0C, 0x00, 0x01, 0x00, 0x01, 0, 0, 0, 60, 0, 4, 10, 0]"
  by (simp add: truncated_response_def example_response_def example_bytes_def wire_defs)

lemma truncated_answers_end: "answers_end truncated_response = 95"
  by (simp add: truncated_response_def example_response_def answers_end_def wire_defs)

lemma truncated_reads_past_end: "reads_past_end ascii_lib (example_bytes [7 := 5] @ [0xC0, 0x0C, 0x00, 0x01, 0x00, 0x01, 0, 0, 0, 60, 0, 4, 10, 0]) 95"
  by code_simp



section \<open>Round trip of the log line\<close>

lemma strip_where_id: "clean_edges P s \<Longrightarrow> strip_where P s = s"
proof (cases s)
  case Nil
  then show ?thesis by (simp add: strip_where_def)
next
  case (Cons c cs)
  assume "clean_edges P s"
  with Cons have a: "\<not> P (hd s)" "\<not> P (last s)" by (auto simp: clean_edges_def)
  have d1: "dropWhile P s = s" using a(1) Cons by simp
  have "hd (rev s) = last s" using Cons by (simp add: hd_rev)
  then have d2: "dropWhile P (rev s) = rev s" using a(2) Cons by (cases "rev s") auto
  show ?thesis by (simp add: strip_where_def d1 d2)
qed

lemma clean_edges_brackets: "\<not> P CHR ''['' \<Longrightarrow> \<not> P CHR '']'' \<Longrightarrow> clean_edges P (''['' @ s @ '']'')"
  by (simp add: clean_edges_def)

lemma isspace_simps [simp]:
  "\<not> isspace CHR ''[''" "\<not> isspace CHR '']''" "\<not> isspace CHR ''@''" "\<not> isspace CHR ''u''"
  "isspace CHR '' ''" "isspace CHR 0x0A"
  by (simp_all add: isspace_def)

lemma bracket_group_ok:
  assumes "CHR '']'' \<notin> set g"
  shows "bracket_group (''['' @ g @ '']'' @ r) = Some (g, r)"
proof -
  have a: "\<forall>x\<in>set g. x \<noteq> CHR '']''" using assms by auto
  have t: "takeWhile (\<lambda>c. c \<noteq> CHR '']'') (g @ CHR '']'' # r) = g"
    using a by (simp add: takeWhile_append2)
  have d: "dropWhile (\<lambda>c. c \<noteq> CHR '']'') (g @ CHR '']'' # r) = CHR '']'' # r"
    using a by (simp add: dropWhile_append2)
  show ?thesis by (simp add: bracket_group_def expect_def t d)
qed

lemma match_event_line:
  assumes "CHR '']'' \<notin> set d" "CHR '']'' \<notin> set t" "CHR '']'' \<notin> set i"
  shows "ORDERED_LINE_RE_match (''['' @ d @ ''] @ ['' @ t @ ''] using ['' @ i @ '']'')
           = Some (d, t, i)"
proof -
  have g1: "bracket_group (''['' @ d @ ''] @ ['' @ t @ ''] using ['' @ i @ '']'')
              = Some (d, '' @ ['' @ t @ ''] using ['' @ i @ '']'')"
    using bracket_group_ok [OF assms(1), of "'' @ ['' @ t @ ''] using ['' @ i @ '']''"] by simp
  have g2: "bracket_group (''['' @ t @ ''] using ['' @ i @ '']'')
              = Some (t, '' using ['' @ i @ '']'')"
    using bracket_group_ok [OF assms(2), of "'' using ['' @ i @ '']''"] by simp
  have g3: "bracket_group (''['' @ i @ '']'') = Some (i, [])"
    using bracket_group_ok [OF assms(3), of "[]"] by simp
  show ?thesis
    unfolding ORDERED_LINE_RE_match_def g1
    using g2 g3 by (simp add: skip_spaces_def expect_def)
qed

lemma isspace_comma [simp]: "\<not> isspace CHR '',''" by (simp add: isspace_def)

lemma split_on_no_sep: "sep \<notin> set s \<Longrightarrow> split_on sep s = [s]"
  by (induction s) auto

lemma split_on_append:
  "sep \<notin> set s \<Longrightarrow> split_on sep (s @ sep # t) = s # split_on sep t"
  by (induction s) auto

lemma split_join:
  assumes "CHR '','' \<notin> set ip" "\<forall>ip\<in>set ips. CHR '','' \<notin> set ip"
  shows "split_on CHR '','' (join '', '' (ip # ips)) = ip # map (\<lambda>x. CHR '' '' # x) ips"
  using assms
proof (induction ips arbitrary: ip)
  case Nil
  then show ?case by (simp add: split_on_no_sep)
next
  case (Cons a ips)
  have "split_on CHR '','' (ip @ CHR '','' # (CHR '' '' # join '', '' (a # ips)))
          = ip # split_on CHR '','' (CHR '' '' # join '', '' (a # ips))"
    using Cons.prems(1) by (rule split_on_append)
  then have "split_on CHR '','' (join '', '' (ip # a # ips))
          = ip # split_on CHR '','' (CHR '' '' # join '', '' (a # ips))"
    by simp
  also have "split_on CHR '','' (CHR '' '' # join '', '' (a # ips))
          = (CHR '' '' # a) # map (\<lambda>x. CHR '' '' # x) ips"
    using Cons.IH [of a] Cons.prems(2) by simp
  finally show ?case by simp
qed

lemma strip_id: "clean_edges isspace s \<Longrightarrow> strip s = s"
  by (simp add: strip_def strip_where_id)

lemma strip_space_cons: "s \<noteq> [] \<Longrightarrow> clean_edges isspace s \<Longrightarrow> strip (CHR '' '' # s) = s"
proof -
  assume a: "s \<noteq> []" "clean_edges isspace s"
  then have h: "\<not> isspace (hd s)" by (simp add: clean_edges_def)
  have "dropWhile isspace (CHR '' '' # s) = s" using a(1) h by (cases s) auto
  then have "strip (CHR '' '' # s) = strip s" by (simp add: strip_def strip_where_def)
  with a(2) show ?thesis by (simp add: strip_id)
qed

lemma normalize_plain: "plain_ip ipa ip \<Longrightarrow> normalize_ip ipa ip = Some ip"
  by (simp add: plain_ip_def normalize_ip_def strip_id)

lemma normalize_plain_space: "plain_ip ipa ip \<Longrightarrow> normalize_ip ipa (CHR '' '' # ip) = Some ip"
  by (simp add: plain_ip_def normalize_ip_def strip_space_cons)

lemma collect_plain:
  assumes "\<forall>p\<in>set ps. normalize_ip ipa (f p) = Some p \<and> p \<noteq> []"
    and "distinct ps" and "set ps \<inter> seen = {}"
  shows "collect_ips ipa (map f ps) seen acc = acc @ ps"
  using assms
proof (induction ps arbitrary: seen acc)
  case Nil
  show ?case by simp
next
  case (Cons p ps)
  have a: "normalize_ip ipa (f p) = Some p" "p \<noteq> []" "p \<notin> seen" using Cons.prems by auto
  have b: "set ps \<inter> insert p seen = {}" using Cons.prems by auto
  have "collect_ips ipa (map f (p # ps)) seen acc = collect_ips ipa (map f ps) (insert p seen) (acc @ [p])"
    using a by simp
  also have "\<dots> = (acc @ [p]) @ ps"
    using Cons.IH [OF _ _ b, of "acc @ [p]"] Cons.prems by simp
  finally show ?case by simp
qed

lemma collect_join:
  assumes "\<forall>ip\<in>set ips. plain_ip ipa ip" "distinct ips" "ips \<noteq> []"
  shows "collect_ips ipa (split_on CHR '','' (join '', '' ips)) {} [] = ips"
proof -
  obtain ip rest' where ips: "ips = ip # rest'" using assms(3) by (cases ips) auto
  have nc: "CHR '','' \<notin> set ip" "\<forall>x\<in>set rest'. CHR '','' \<notin> set x"
    using assms(1) ips by (auto simp: plain_ip_def)
  have sp: "split_on CHR '','' (join '', '' (ip # rest')) = ip # map (\<lambda>x. CHR '' '' # x) rest'"
    using split_join [OF nc(1) nc(2)] .
  have p: "plain_ip ipa ip" using assms(1) ips by simp
  have "collect_ips ipa (ip # map (\<lambda>x. CHR '' '' # x) rest') {} []
          = collect_ips ipa (map (\<lambda>x. CHR '' '' # x) rest') {ip} [ip]"
  proof -
    have np: "normalize_ip ipa ip = Some ip" by (rule normalize_plain [OF p])
    have ne: "ip \<noteq> []" using p by (simp add: plain_ip_def)
    show ?thesis by (simp add: np ne)
  qed
  also have "\<dots> = [ip] @ rest'"
  proof (rule collect_plain)
    show "\<forall>p\<in>set rest'. normalize_ip ipa (CHR '' '' # p) = Some p \<and> p \<noteq> []"
      using assms(1) ips normalize_plain_space by (auto simp: plain_ip_def)
    show "distinct rest'" using assms(2) ips by simp
    show "set rest' \<inter> {ip} = {}" using assms(2) ips by auto
  qed
  finally have fin: "collect_ips ipa (ip # map (\<lambda>x. CHR '' '' # x) rest') {} [] = [ip] @ rest'" .
  show ?thesis unfolding ips sp fin by simp
qed

lemma join_clean:
  assumes "\<forall>ip\<in>set ips. ip \<noteq> [] \<and> clean_edges isspace ip" "ips \<noteq> []"
  shows "join '', '' ips \<noteq> [] \<and> clean_edges isspace (join '', '' ips)"
  using assms
proof (induction "'', ''" ips rule: join.induct [case_names Nil One Many])
  case Nil
  then show ?case by simp
next
  case (One x)
  then show ?case by simp
next
  case (Many x y ys)
  then have t: "join '', '' (y # ys) \<noteq> []" "clean_edges isspace (join '', '' (y # ys))" by auto
  have x: "x \<noteq> []" "clean_edges isspace x" using Many.prems by auto
  have "hd (join '', '' (x # y # ys)) = hd x" using x by simp
  moreover have "last (join '', '' (x # y # ys)) = last (join '', '' (y # ys))" using t by simp
  ultimately show ?case using x t by (auto simp: clean_edges_def)
qed

lemma join_no_bracket:
  "\<forall>ip\<in>set ips. CHR '']'' \<notin> set ip \<Longrightarrow> CHR '']'' \<notin> set (join '', '' ips)"
  by (induction "'', ''" ips rule: join.induct) auto

lemma event_line_roundtrip_gen:
  assumes "CHR '']'' \<notin> set domain" "normal_domain domain"
    and "CHR '']'' \<notin> set ts" "clean_edges isspace ts"
    and "distinct ips" "\<forall>ip\<in>set ips. plain_ip ipa ip"
    and "list_all isspace trail"
  shows "parse_ordered_line ipa (event_line domain ts ips @ trail) = Some (domain, ts, ips)"
proof -
  let ?i = "join '', '' ips"
  let ?line = "''['' @ domain @ ''] @ ['' @ ts @ ''] using ['' @ ?i @ '']''"
  have el: "event_line domain ts ips = ?line" by (simp add: event_line_def)
  have nb: "CHR '']'' \<notin> set ?i"
    using assms(6) by (intro join_no_bracket) (simp add: plain_ip_def)
  have "clean_edges isspace ?line" by (simp add: clean_edges_def)
  then have s0: "strip ?line = ?line" by (rule strip_id)
  have s1: "strip (?line @ trail) = ?line"
  proof -
    have d1: "dropWhile isspace (?line @ trail) = ?line @ trail" by simp
    have "rev (?line @ trail) = rev trail @ rev ?line" by simp
    moreover have "\<forall>x\<in>set (rev trail). isspace x" using assms(7) by (simp add: list_all_iff)
    ultimately have "dropWhile isspace (rev (?line @ trail)) = dropWhile isspace (rev ?line)"
      by (simp only: dropWhile_append2)
    also have "\<dots> = rev ?line" by simp
    finally show ?thesis by (simp only: strip_def strip_where_def d1 rev_rev_ident)
  qed
  have m: "ORDERED_LINE_RE_match ?line = Some (domain, ts, ?i)"
    using match_event_line [OF assms(1) assms(3) nb] .
  have dn: "strip_chars ''.'' (lower (strip domain)) = domain"
    using assms(2) by (simp add: normal_domain_def strip_id strip_chars_def strip_where_id)
  have tn: "strip ts = ts" using assms(4) by (rule strip_id)
  have ips: "(if strip ?i \<noteq> [] then collect_ips ipa (split_on CHR '','' (strip ?i)) {} [] else [])
              = ips"
  proof (cases "ips = []")
    case True
    then show ?thesis by (simp add: strip_def strip_where_def)
  next
    case False
    have c: "\<forall>ip\<in>set ips. ip \<noteq> [] \<and> clean_edges isspace ip"
      using assms(6) by (simp add: plain_ip_def)
    from join_clean [OF c False] have "strip ?i = ?i" "?i \<noteq> []" by (simp_all add: strip_id)
    then show ?thesis using collect_join [OF assms(6) assms(5) False] by simp
  qed
  show ?thesis
    unfolding parse_ordered_line_def el s1 m
    by (simp only: option.case prod.case Let_def dn tn ips)
qed

text \<open>
  C6, as amended. An event whose domain has no \<open>]\<close> and is in the parser's normal form
  (lower case, no white space and no dot at either end), whose timestamp has no \<open>]\<close> and
  no white space at its ends, and whose IPs are pairwise different texts that the address
  normaliser returns unchanged, is read back from its log line as the same
  \<open>(domain, time, ips)\<close>, with or without the line terminator.
\<close>

theorem event_line_roundtrip:
  assumes "CHR '']'' \<notin> set domain" "normal_domain domain"
    and "CHR '']'' \<notin> set ts" "clean_edges isspace ts"
    and "distinct ips" "\<forall>ip\<in>set ips. plain_ip ipa ip"
  shows "parse_ordered_line ipa (event_line domain ts ips) = Some (domain, ts, ips)
         \<and> parse_ordered_line ipa (event_line domain ts ips @ [CHR 0x0A]) = Some (domain, ts, ips)"
  using event_line_roundtrip_gen [OF assms, of "[]"]
        event_line_roundtrip_gen [OF assms, of "[CHR 0x0A]"]
  by simp

theorem event_line_roundtrip_witness:
  "CHR '']'' \<notin> set ''youtube.com'' \<and> normal_domain ''youtube.com''
   \<and> CHR '']'' \<notin> set ''20240101-12:00:00'' \<and> clean_edges isspace ''20240101-12:00:00''
   \<and> distinct [''142.250.1.1'', ''10.0.0.2'']
   \<and> plain_ip ipv4_text ''142.250.1.1'' \<and> plain_ip ipv4_text ''10.0.0.2''
   \<and> parse_ordered_line ipv4_text
         (event_line ''youtube.com'' ''20240101-12:00:00'' [''142.250.1.1'', ''10.0.0.2''])
       = Some (''youtube.com'', ''20240101-12:00:00'', [''142.250.1.1'', ''10.0.0.2''])"
proof -
  have a: "CHR '']'' \<notin> set ''youtube.com''" by simp
  have b: "normal_domain ''youtube.com''" by code_simp
  have c: "CHR '']'' \<notin> set ''20240101-12:00:00''" by simp
  have d: "clean_edges isspace ''20240101-12:00:00''" by code_simp
  have e: "distinct [''142.250.1.1'', ''10.0.0.2'']" by simp
  have f1: "plain_ip ipv4_text ''142.250.1.1''" by code_simp
  have f2: "plain_ip ipv4_text ''10.0.0.2''" by code_simp
  have f: "\<forall>ip\<in>set [''142.250.1.1'', ''10.0.0.2'']. plain_ip ipv4_text ip"
    using f1 f2 by simp
  show ?thesis
    using a b c d e f1 f2 event_line_roundtrip [OF a b c d e f] by blast
qed

text \<open>
  C6 as stated fails: the query \<open>spaced_query\<close> gives the proxy the domain
  \<open>example.com\<close> followed by a space, which has neither bracket, and the parser strips
  the space.
\<close>

theorem event_line_roundtrip_counterexample:
  "extract_query_domain ascii_lib spaced_query = Inr (Some ''example.com '')
   \<and> CHR '']'' \<notin> set ''example.com '' \<and> CHR ''['' \<notin> set ''example.com ''
   \<and> parse_ordered_line ipv4_text
         (event_line ''example.com '' ''20240101-12:00:00'' [''1.2.3.4''])
       = Some (''example.com'', ''20240101-12:00:00'', [''1.2.3.4''])
   \<and> parse_ordered_line ipv4_text
         (event_line ''example.com '' ''20240101-12:00:00'' [''1.2.3.4''])
       \<noteq> Some (''example.com '', ''20240101-12:00:00'', [''1.2.3.4''])"
proof -
  have q: "extract_query_domain ascii_lib spaced_query = Inr (Some ''example.com '')"
    by code_simp
  have p: "parse_ordered_line ipv4_text
         (event_line ''example.com '' ''20240101-12:00:00'' [''1.2.3.4''])
       = Some (''example.com'', ''20240101-12:00:00'', [''1.2.3.4''])"
    by code_simp
  show ?thesis unfolding p using q by simp
qed

section \<open>consume\_new\_events and lines without a terminator\<close>

text \<open>Reading the log changes nothing but the cursor, the event fields and the target set,
  which only grows.\<close>

lemma tail_frame_refl: "tail_frame sh sh"
  by (simp add: tail_frame_def)

lemma tail_frame_trans: "tail_frame a b \<Longrightarrow> tail_frame b c \<Longrightarrow> tail_frame a c"
  unfolding tail_frame_def by (intro conjI; (force | blast | simp))

lemma tail_frame_cursor: "tail_frame (st, h) (st \<lparr> consumed_bytes := n \<rparr>, h)"
  by (simp add: tail_frame_def)

lemma tail_frame_consume_line: "tail_frame (st, h) (consume_line ipa line (st, h))"
proof (cases "parse_ordered_line ipa line")
  case None
  then show ?thesis by (simp add: consume_line_def tail_frame_def)
next
  case (Some p)
  obtain d t i where p: "p = (d, t, i)" by (cases p) auto
  show ?thesis
  proof (cases "is_target_domain d (target_domains st)")
    case True
    with Some p show ?thesis by (simp add: consume_line_def tail_frame_def Let_def)
  next
    case False
    with Some p show ?thesis by (simp add: consume_line_def tail_frame_def Let_def)
  qed
qed

lemma tail_frame_consume_loop: "tail_frame sh (consume_loop ipa ls sh)"
proof (induction ls arbitrary: sh)
  case Nil
  show ?case by (simp add: tail_frame_refl)
next
  case (Cons l ls)
  obtain line told where l: "l = (line, told)" by (cases l) auto
  show ?case
  proof (cases "line = []")
    case True
    with l show ?thesis by (simp add: tail_frame_refl)
  next
    case False
    let ?s1 = "((fst sh) \<lparr> consumed_bytes := told \<rparr>, snd sh)"
    let ?sh' = "consume_line ipa line ?s1"
    have a: "tail_frame sh ?s1"
      using tail_frame_cursor [of "fst sh" "snd sh"] by simp
    have b: "tail_frame ?s1 ?sh'" by (rule tail_frame_consume_line)
    have c: "tail_frame ?sh' (consume_loop ipa ls ?sh')" by (rule Cons.IH)
    have "consume_loop ipa (l # ls) sh = consume_loop ipa ls ?sh'"
      using l False by simp
    then show ?thesis
      using tail_frame_trans [OF a tail_frame_trans [OF b c]] by simp
  qed
qed

lemma tail_frame_consume: "tail_frame sh (consume_new_events io ipa fs sh)"
  by (simp add: consume_new_events_def tail_frame_refl tail_frame_consume_loop split: option.splits)

text \<open>The loop takes the lines one after the other, and the body of the loop leaves the
  cursor alone.\<close>

lemma consume_loop_append:
  assumes "list_all (\<lambda>l. fst l \<noteq> []) before"
  shows "consume_loop ipa (before @ after) sh = consume_loop ipa after (consume_loop ipa before sh)"
  using assms
proof (induction before arbitrary: sh)
  case Nil
  show ?case by simp
next
  case (Cons l before)
  obtain line told where l: "l = (line, told)" by (cases l) auto
  with Cons.prems have ne: "line \<noteq> []" and r: "list_all (\<lambda>l. fst l \<noteq> []) before" by simp_all
  show ?case using l ne Cons.IH [OF r] by simp
qed

lemma consume_line_cursor:
  "consumed_bytes (fst (consume_line ipa line (st, h))) = consumed_bytes st"
proof (cases "parse_ordered_line ipa line")
  case None
  then show ?thesis by (simp add: consume_line_def)
next
  case (Some p)
  obtain d t i where "p = (d, t, i)" by (cases p) auto
  with Some show ?thesis by (simp add: consume_line_def Let_def)
qed

lemma consume_line_skipped:
  "parse_ordered_line ipa line = None \<Longrightarrow> consume_line ipa line sh = sh"
  by (cases sh) (simp add: consume_line_def)

lemma consume_line_parsed:
  assumes "parse_ordered_line ipa line = Some (d, t, ips)"
  shows "total_dns_events (fst (consume_line ipa line (st, h))) = total_dns_events st + 1"
    and "observed_domains (fst (consume_line ipa line (st, h))) = insert d (observed_domains st)"
    and "is_target_domain d (target_domains st) \<Longrightarrow>
           objs (snd (consume_line ipa line (st, h))) (youtube_ips st)
             = objs h (youtube_ips st) \<union> set ips"
    and "is_target_domain d (target_domains st) \<Longrightarrow>
           youtube_events (fst (consume_line ipa line (st, h)))
             = youtube_events st @ [\<lparr> ev_domain = d, ev_time = t, ev_ips = ips \<rparr>]"
    and "\<not> is_target_domain d (target_domains st) \<Longrightarrow>
           snd (consume_line ipa line (st, h)) = h"
  using assms by (simp_all add: consume_line_def Let_def)

lemma consume_new_events_lines:
  assumes "fs (ordered_log st) = Some log"
    and "io log (consumed_bytes st) = before @ [(frag, told)]"
    and "list_all (\<lambda>l. fst l \<noteq> []) before" and "frag \<noteq> []"
    and "consume_loop ipa before (st, h) = (st1, h1)"
  shows "consume_new_events io ipa fs (st, h)
           = consume_line ipa frag (st1 \<lparr> consumed_bytes := told \<rparr>, h1)"
proof -
  have "consume_new_events io ipa fs (st, h) = consume_loop ipa (before @ [(frag, told)]) (st, h)"
    using assms(1,2) by (simp add: consume_new_events_def)
  also have "\<dots> = consume_loop ipa [(frag, told)] (st1, h1)"
    using consume_loop_append [OF assms(3), of ipa "[(frag, told)]" "(st, h)"] assms(5) by simp
  also have "\<dots> = consume_line ipa frag (st1 \<lparr> consumed_bytes := told \<rparr>, h1)"
    using assms(4) by simp
  finally show ?thesis .
qed

text \<open>The example logs, read through the ASCII text layer.\<close>

lemma unterminated_cursor: "consumed_bytes (fst (consume_new_events ascii_text ipv4_text (one_file unterminated_log) blocker0)) = 55"
  by code_simp

lemma unterminated_events: "total_dns_events (fst (consume_new_events ascii_text ipv4_text (one_file unterminated_log) blocker0)) = 1"
  by code_simp

lemma unterminated_ips: "(let (st, h) = consume_new_events ascii_text ipv4_text (one_file unterminated_log) blocker0
           in objs h (youtube_ips st)) = {''142.250.1.1''}"
  by code_simp

lemma cut_line_lost: "(let sh1 = consume_new_events ascii_text ipv4_text (one_file cut_log) blocker0;
                (st, h) = consume_new_events ascii_text ipv4_text (one_file (cut_log @ cut_log_tail)) sh1
           in (consumed_bytes st, total_dns_events st, objs h (youtube_ips st)))
         = (56, 0, {})"
  by code_simp

lemma whole_line_read: "(let (st, h) = consume_new_events ascii_text ipv4_text (one_file (cut_log @ cut_log_tail)) blocker0
           in (consumed_bytes st, total_dns_events st, objs h (youtube_ips st)))
         = (56, 1, {''142.250.1.1''})"
  by code_simp

lemma blocker0_fields:
  "ordered_log (fst blocker0) = ''ordered.txt''" "consumed_bytes (fst blocker0) = 0"
  "total_dns_events (fst blocker0) = 0"
  by (simp_all add: blocker0_def new_BlockerState_def alloc_def Let_def)

lemma two_line_log_lines:
  "ascii_text (ascii_bytes two_line_log) 0 = [(first_line, 53)] @ [(unterminated_log, 108)]"
  by code_simp

lemma first_line_parsed:
  "parse_ordered_line ipv4_text first_line = Some (''example.com'', ''20240101-11:59:59'', [''10.0.0.2''])"
  by code_simp

lemma unterminated_log_parsed:
  "parse_ordered_line ipv4_text unterminated_log
     = Some (''youtube.com'', ''20240101-12:00:00'', [''142.250.1.1''])"
  by code_simp

lemma youtube_is_target:
  "is_target_domain ''youtube.com''
     (target_domains (fst (consume_loop ipv4_text [(first_line, 53)] (fst blocker0, snd blocker0))))"
  by code_simp

lemma after_first_line:
  "total_dns_events (fst (consume_loop ipv4_text [(first_line, 53)] (fst blocker0, snd blocker0))) = 1"
  "objs (snd (consume_loop ipv4_text [(first_line, 53)] (fst blocker0, snd blocker0)))
     (youtube_ips (fst (consume_loop ipv4_text [(first_line, 53)] (fst blocker0, snd blocker0)))) = {}"
  by code_simp+

text \<open>
  C1, as amended. \<open>consume_new_events\<close> makes no difference between a complete line and
  a last line without its terminator: the loop takes every line \<open>readline\<close> returns that
  is not empty, whatever it ends with. Let \<open>frag\<close> be the last of them, \<open>told\<close> the value
  of \<open>f.tell()\<close> after it, and \<open>(st1, h1)\<close> the state after the lines before it. Then the
  call ends in the state the loop body gives for \<open>frag\<close> with the cursor at \<open>told\<close>: the
  cursor is behind the fragment; if the fragment does not match the line grammar nothing
  else has changed; if it does, the event is counted, its domain is among the observed
  domains and, for a target domain, its addresses are in the target set and the event is
  appended to the list of events. The next call starts reading at \<open>told\<close>.
\<close>

theorem consume_unterminated_line:
  assumes "fs (ordered_log st) = Some log"
    and "io log (consumed_bytes st) = before @ [(frag, told)]"
    and "list_all (\<lambda>l. fst l \<noteq> []) before" and "frag \<noteq> []"
    and "consume_loop ipa before (st, h) = (st1, h1)"
    and "consume_new_events io ipa fs (st, h) = (st', h')"
  shows "(st', h') = consume_line ipa frag (st1 \<lparr> consumed_bytes := told \<rparr>, h1)
    \<and> consumed_bytes st' = told
    \<and> (parse_ordered_line ipa frag = None \<longrightarrow> st' = st1 \<lparr> consumed_bytes := told \<rparr> \<and> h' = h1)
    \<and> (\<forall>d t ips. parse_ordered_line ipa frag = Some (d, t, ips) \<longrightarrow>
          total_dns_events st' = total_dns_events st1 + 1
          \<and> observed_domains st' = insert d (observed_domains st1)
          \<and> (is_target_domain d (target_domains st1) \<longrightarrow>
                objs h' (youtube_ips st1) = objs h1 (youtube_ips st1) \<union> set ips
                \<and> youtube_events st'
                    = youtube_events st1 @ [\<lparr> ev_domain = d, ev_time = t, ev_ips = ips \<rparr>]))
    \<and> (\<forall>fs2 log2. fs2 (ordered_log st) = Some log2 \<longrightarrow>
          consume_new_events io ipa fs2 (st', h') = consume_loop ipa (io log2 told) (st', h'))"
proof -
  let ?s = "st1 \<lparr> consumed_bytes := told \<rparr>"
  have r: "(st', h') = consume_line ipa frag (?s, h1)"
    using consume_new_events_lines [where fs = fs and io = io, OF assms(1-5)] assms(6) by simp
  have c: "consumed_bytes st' = told"
    using consume_line_cursor [of ipa frag ?s h1] r [symmetric] by simp
  have n: "st' = ?s \<and> h' = h1" if "parse_ordered_line ipa frag = None"
    using consume_line_skipped [OF that, of "(?s, h1)"] r by simp
  have p: "total_dns_events st' = total_dns_events st1 + 1
          \<and> observed_domains st' = insert d (observed_domains st1)
          \<and> (is_target_domain d (target_domains st1) \<longrightarrow>
                objs h' (youtube_ips st1) = objs h1 (youtube_ips st1) \<union> set ips
                \<and> youtube_events st'
                    = youtube_events st1 @ [\<lparr> ev_domain = d, ev_time = t, ev_ips = ips \<rparr>])"
    if "parse_ordered_line ipa frag = Some (d, t, ips)" for d t ips
    using consume_line_parsed [OF that, of ?s h1] r [symmetric] by simp
  have o: "ordered_log st' = ordered_log st"
    using tail_frame_consume [of "(st, h)" io ipa fs] assms(6) by (simp add: tail_frame_def)
  have nx: "consume_new_events io ipa fs2 (st', h') = consume_loop ipa (io log2 told) (st', h')"
    if "fs2 (ordered_log st) = Some log2" for fs2 log2
    using that o c by (simp add: consume_new_events_def)
  show ?thesis using r c n p nx by blast
qed

theorem consume_unterminated_line_witness:
  "one_file two_line_log (ordered_log (fst blocker0)) = Some (ascii_bytes two_line_log)
   \<and> ascii_text (ascii_bytes two_line_log) (consumed_bytes (fst blocker0))
       = [(first_line, 53)] @ [(unterminated_log, 108)]
   \<and> first_line \<noteq> [] \<and> unterminated_log \<noteq> [] \<and> CHR 0x0A \<notin> set unterminated_log
   \<and> consumed_bytes
        (fst (consume_new_events ascii_text ipv4_text (one_file two_line_log) (fst blocker0, snd blocker0)))
       = 108
   \<and> total_dns_events
        (fst (consume_new_events ascii_text ipv4_text (one_file two_line_log) (fst blocker0, snd blocker0)))
       = 2
   \<and> objs (snd (consume_new_events ascii_text ipv4_text (one_file two_line_log)
                   (fst blocker0, snd blocker0)))
          (youtube_ips (fst (consume_loop ipv4_text [(first_line, 53)] (fst blocker0, snd blocker0))))
       = {''142.250.1.1''}"
proof -
  let ?mid = "consume_loop ipv4_text [(first_line, 53)] (fst blocker0, snd blocker0)"
  let ?res = "consume_new_events ascii_text ipv4_text (one_file two_line_log)
                (fst blocker0, snd blocker0)"
  have a: "one_file two_line_log (ordered_log (fst blocker0)) = Some (ascii_bytes two_line_log)"
    by (simp add: blocker0_fields one_file_def)
  have b: "ascii_text (ascii_bytes two_line_log) (consumed_bytes (fst blocker0))
       = [(first_line, 53)] @ [(unterminated_log, 108)]"
    using two_line_log_lines by (simp add: blocker0_fields)
  have c: "list_all (\<lambda>l. fst l \<noteq> []) [(first_line, 53::nat)]" by (simp add: first_line_def)
  have c': "first_line \<noteq> []" by (simp add: first_line_def)
  have d: "unterminated_log \<noteq> []" "CHR 0x0A \<notin> set unterminated_log"
    by (simp_all add: unterminated_log_def)
  have e: "?mid = (fst ?mid, snd ?mid)" by simp
  have f: "?res = (fst ?res, snd ?res)" by simp
  note t = consume_unterminated_line
             [where fs = "one_file two_line_log" and io = ascii_text, OF a b c d(1) e f]
  from t have g1: "consumed_bytes (fst ?res) = 108" by blast
  from t unterminated_log_parsed have
    "total_dns_events (fst ?res) = total_dns_events (fst ?mid) + 1
     \<and> (is_target_domain ''youtube.com'' (target_domains (fst ?mid)) \<longrightarrow>
          objs (snd ?res) (youtube_ips (fst ?mid))
            = objs (snd ?mid) (youtube_ips (fst ?mid)) \<union> set [''142.250.1.1''])"
    by blast
  with youtube_is_target after_first_line have g2: "total_dns_events (fst ?res) = 2"
    and g3: "objs (snd ?res) (youtube_ips (fst ?mid)) = {''142.250.1.1''}"
    by simp_all
  show ?thesis using a b c' d g1 g2 g3 by blast
qed

text \<open>
  C1 as stated fails. The log \<open>unterminated_log\<close> has one line and no terminator: the call
  moves the cursor from 0 to 55, counts one event and adds the address. And when a line is
  cut inside its IP list, the fragment is consumed without effect and the bytes appended
  later are read as a line of their own, so the event is never seen, while the whole line
  read at once gives it.
\<close>

theorem consume_unterminated_line_counterexample:
  "CHR 0x0A \<notin> set unterminated_log
   \<and> consumed_bytes (fst blocker0) = 0 \<and> total_dns_events (fst blocker0) = 0
   \<and> consumed_bytes (fst (consume_new_events ascii_text ipv4_text (one_file unterminated_log) blocker0)) = 55
   \<and> total_dns_events (fst (consume_new_events ascii_text ipv4_text (one_file unterminated_log) blocker0)) = 1
   \<and> (let (st, h) = consume_new_events ascii_text ipv4_text (one_file unterminated_log) blocker0
        in objs h (youtube_ips st)) = {''142.250.1.1''}
   \<and> CHR 0x0A \<notin> set cut_log
   \<and> (let sh1 = consume_new_events ascii_text ipv4_text (one_file cut_log) blocker0;
            (st, h) = consume_new_events ascii_text ipv4_text (one_file (cut_log @ cut_log_tail)) sh1
        in (consumed_bytes st, total_dns_events st, objs h (youtube_ips st)))
       = (56, 0, {})
   \<and> (let (st, h) = consume_new_events ascii_text ipv4_text (one_file (cut_log @ cut_log_tail)) blocker0
        in (consumed_bytes st, total_dns_events st, objs h (youtube_ips st)))
       = (56, 1, {''142.250.1.1''})"
proof -
  have a: "CHR 0x0A \<notin> set unterminated_log" "CHR 0x0A \<notin> set cut_log"
    by (simp_all add: unterminated_log_def cut_log_def)
  show ?thesis
    using a blocker0_fields(2,3) unterminated_cursor unterminated_events unterminated_ips cut_line_lost whole_line_read by (simp only: simp_thms)
qed

section \<open>The main loop: convergence\<close>

lemma tail_frame_inv:
  assumes "tail_frame (st, h) (st1, h1)" "blocker_inv (st, h)"
  shows "blocker_inv (st1, h1)" and "objs h1 (blocked_ips st1) = objs h (blocked_ips st)"
proof -
  from assms(1) have f: "youtube_ips st1 = youtube_ips st" "blocked_ips st1 = blocked_ips st"
    "next_ref h1 = next_ref h"
    "\<forall>r. r \<noteq> youtube_ips st \<longrightarrow> objs h1 r = objs h r"
    "objs h (youtube_ips st) \<subseteq> objs h1 (youtube_ips st)"
    by (simp_all add: tail_frame_def)
  from assms(2) have i: "youtube_ips st \<noteq> blocked_ips st" "youtube_ips st < next_ref h"
    "blocked_ips st < next_ref h" "objs h (blocked_ips st) \<subseteq> objs h (youtube_ips st)"
    by (simp_all add: blocker_inv_def)
  show b: "objs h1 (blocked_ips st1) = objs h (blocked_ips st)" using f i(1) by auto
  show "blocker_inv (st1, h1)"
    unfolding blocker_inv_def using f(1,2,3,5) i b by auto
qed

text \<open>The commands each step sends to the packet filter.\<close>

lemma stat_not_reload: "stat_cmd a c \<Longrightarrow> \<not> reload_cmd a c"
  by (auto simp: stat_cmd_def reload_cmd_def)

lemma list_all_stat_no_reload:
  "list_all (stat_cmd a) cs \<Longrightarrow> \<not> list_ex (reload_cmd a) cs"
  by (induction cs) (auto simp: stat_not_reload)

lemma run_cmd_world:
  "run_cmd w args inp = (res, w') \<Longrightarrow>
   pf_calls w' = pf_calls w @ [(args, inp)] \<and> written w' = written w \<and> pf_reply w' = pf_reply w"
  by (auto simp: run_cmd_def)

lemma read_blocked_packet_count_calls:
  assumes "read_blocked_packet_count w a l = (n, w')"
  shows "\<exists>cs. pf_calls w' = pf_calls w @ cs \<and> list_all (stat_cmd a) cs
              \<and> written w' = written w \<and> pf_reply w' = pf_reply w"
proof -
  obtain proc w1 where r1: "run_cmd w [''pfctl'', ''-a'', a, ''-vvs'', ''rules''] None = (proc, w1)"
    by (cases "run_cmd w [''pfctl'', ''-a'', a, ''-vvs'', ''rules''] None") auto
  from run_cmd_world [OF r1]
  have w1: "pf_calls w1 = pf_calls w @ [([''pfctl'', ''-a'', a, ''-vvs'', ''rules''], None)]"
    "written w1 = written w" "pf_reply w1 = pf_reply w" by auto
  obtain lp w2 where r2: "run_cmd w1 [''pfctl'', ''-a'', a, ''-s'', ''labels''] None = (lp, w2)"
    by (cases "run_cmd w1 [''pfctl'', ''-a'', a, ''-s'', ''labels''] None") auto
  from run_cmd_world [OF r2] w1
  have w2: "pf_calls w2 = pf_calls w @ [([''pfctl'', ''-a'', a, ''-vvs'', ''rules''], None),
                                          ([''pfctl'', ''-a'', a, ''-s'', ''labels''], None)]"
    "written w2 = written w" "pf_reply w2 = pf_reply w" by auto
  obtain total cur has where sc:
    "scan_rule_lines l (splitlines (stdout proc)) (0, False, False) = (total, cur, has)"
    by (cases "scan_rule_lines l (splitlines (stdout proc)) (0, False, False)") auto
  have "w' = w1 \<or> w' = w2"
  proof (cases "returncode proc \<noteq> 0 \<or> has")
    case True
    then have "snd (read_blocked_packet_count w a l) = w1"
      using r1 sc by (auto simp: read_blocked_packet_count_def Let_def)
    with assms show ?thesis by simp
  next
    case False
    then have "snd (read_blocked_packet_count w a l) = w2"
      using r1 r2 sc by (simp add: read_blocked_packet_count_def Let_def)
    with assms show ?thesis by simp
  qed
  then show ?thesis
  proof
    assume "w' = w1"
    with w1 show ?thesis by (simp add: stat_cmd_def)
  next
    assume "w' = w2"
    with w2 show ?thesis by (simp add: stat_cmd_def)
  qed
qed

lemma apply_anchor_rules_calls:
  assumes "apply_anchor_rules w a ips l = (res, w')"
  shows "\<exists>cs. pf_calls w' = pf_calls w @ cs \<and> cs \<noteq> [] \<and> list_all (reload_cmd a) cs
              \<and> written w' = written w \<and> pf_reply w' = pf_reply w"
proof (cases "ips = {}")
  case True
  then have "w' = clear_anchor_rules w a" using assms by (simp add: apply_anchor_rules_def)
  then show ?thesis
    by (simp add: clear_anchor_rules_def run_cmd_def reload_cmd_def)
next
  case False
  let ?rules = "build_anchor_rules (sorted_list_of_set ips) l"
  obtain proc w1 where r1: "run_cmd w [''pfctl'', ''-a'', a, ''-f'', ''-''] (Some ?rules) = (proc, w1)"
    by (cases "run_cmd w [''pfctl'', ''-a'', a, ''-f'', ''-''] (Some ?rules)") auto
  have "w' = w1" using assms False r1
    by (auto simp: apply_anchor_rules_def Let_def split: if_splits)
  with run_cmd_world [OF r1] show ?thesis by (simp add: reload_cmd_def)
qed

text \<open>The two outcomes of a convergence, and a round with and without one.\<close>

lemma converge_cases:
  obtains (ok) n w1 msg w2 where
      "read_blocked_packet_count w (anchor st) (label st) = (n, w1)"
      "apply_anchor_rules w1 (anchor st) (objs h (youtube_ips st)) (label st) = ((True, msg), w2)"
      "convergence_ok w st h"
      "converge (st, h, w)
         = (st \<lparr> cumulative_blocked_packets := cumulative_blocked_packets st + n,
                 blocked_ips := next_ref h \<rparr>,
            h \<lparr> objs := (objs h) (next_ref h := objs h (youtube_ips st)),
                next_ref := next_ref h + 1 \<rparr>,
            w2, msg)"
  | (fail) n w1 msg w2 where
      "read_blocked_packet_count w (anchor st) (label st) = (n, w1)"
      "apply_anchor_rules w1 (anchor st) (objs h (youtube_ips st)) (label st) = ((False, msg), w2)"
      "\<not> convergence_ok w st h"
      "converge (st, h, w)
         = (st \<lparr> cumulative_blocked_packets := cumulative_blocked_packets st + n \<rparr>, h, w2,
            ''Failed to apply PF rules: '' @ msg)"
proof -
  obtain n w1 where r: "read_blocked_packet_count w (anchor st) (label st) = (n, w1)"
    by (cases "read_blocked_packet_count w (anchor st) (label st)") auto
  obtain okb msg w2 where
    a: "apply_anchor_rules w1 (anchor st) (objs h (youtube_ips st)) (label st) = ((okb, msg), w2)"
    by (cases "apply_anchor_rules w1 (anchor st) (objs h (youtube_ips st)) (label st)") auto
  show ?thesis
  proof (cases okb)
    case True
    have c: "convergence_ok w st h"
      using r a True by (simp add: convergence_ok_def convergence_result_def)
    have a': "apply_anchor_rules w1 (anchor st) (objs h (youtube_ips st)) (label st)
                = ((True, msg), w2)"
      using a True by simp
    have "converge (st, h, w)
         = (st \<lparr> cumulative_blocked_packets := cumulative_blocked_packets st + n,
                 blocked_ips := next_ref h \<rparr>,
            h \<lparr> objs := (objs h) (next_ref h := objs h (youtube_ips st)),
                next_ref := next_ref h + 1 \<rparr>,
            w2, msg)"
      using r a True by (simp add: converge_def alloc_def Let_def)
    then show ?thesis by (rule ok [OF r a' c])
  next
    case False
    have c: "\<not> convergence_ok w st h"
      using r a False by (simp add: convergence_ok_def convergence_result_def)
    have "converge (st, h, w)
         = (st \<lparr> cumulative_blocked_packets := cumulative_blocked_packets st + n \<rparr>, h, w2,
            ''Failed to apply PF rules: '' @ msg)"
      using r a False by (simp add: converge_def Let_def)
    moreover have a': "apply_anchor_rules w1 (anchor st) (objs h (youtube_ips st)) (label st)
                = ((False, msg), w2)"
      using a False by simp
    ultimately show ?thesis using fail [OF r a' c] by simp
  qed
qed

lemma converge_calls:
  assumes "converge (st, h, w) = (st2, h2, w2, m2)"
  shows "anchor st2 = anchor st \<and> label st2 = label st
         \<and> (\<exists>cs. pf_calls w2 = pf_calls w @ cs \<and> list_ex (reload_cmd (anchor st)) cs)"
proof (cases rule: converge_cases [of w st h])
  case (ok n w1 m w2')
  from read_blocked_packet_count_calls [OF ok(1)] obtain cs1 where
    c1: "pf_calls w1 = pf_calls w @ cs1" by blast
  from apply_anchor_rules_calls [OF ok(2)] obtain cs2 where
    c2: "pf_calls w2' = pf_calls w1 @ cs2" "cs2 \<noteq> []" "list_all (reload_cmd (anchor st)) cs2"
    by blast
  from c2(2,3) have "list_ex (reload_cmd (anchor st)) (cs1 @ cs2)"
    by (cases cs2) simp_all
  moreover have "pf_calls w2' = pf_calls w @ (cs1 @ cs2)" using c1 c2(1) by simp
  ultimately have "\<exists>cs. pf_calls w2' = pf_calls w @ cs \<and> list_ex (reload_cmd (anchor st)) cs"
    by blast
  with ok(4) assms show ?thesis by simp
next
  case (fail n w1 m w2')
  from read_blocked_packet_count_calls [OF fail(1)] obtain cs1 where
    c1: "pf_calls w1 = pf_calls w @ cs1" by blast
  from apply_anchor_rules_calls [OF fail(2)] obtain cs2 where
    c2: "pf_calls w2' = pf_calls w1 @ cs2" "cs2 \<noteq> []" "list_all (reload_cmd (anchor st)) cs2"
    by blast
  from c2(2,3) have "list_ex (reload_cmd (anchor st)) (cs1 @ cs2)"
    by (cases cs2) simp_all
  moreover have "pf_calls w2' = pf_calls w @ (cs1 @ cs2)" using c1 c2(1) by simp
  ultimately have "\<exists>cs. pf_calls w2' = pf_calls w @ cs \<and> list_ex (reload_cmd (anchor st)) cs"
    by blast
  with fail(4) assms show ?thesis by simp
qed

lemma main_iteration_fst:
  assumes "consume_new_events io ipa fs (st, h) = (st1, h1)"
    and "pf_ready \<and> objs h1 (youtube_ips st1) \<noteq> objs h1 (blocked_ips st1)"
    and "converge (st1, h1, w) = (st2, h2, w2, m2)"
  shows "fst (main_iteration io ipa fs pf_ready (st, h, w, msg)) = st2"
    and "fst (snd (main_iteration io ipa fs pf_ready (st, h, w, msg))) = h2"
    and "snd (snd (snd (main_iteration io ipa fs pf_ready (st, h, w, msg)))) = m2"
  using assms by (simp_all add: main_iteration_def Let_def split: prod.splits)

lemma main_iteration_idle:
  assumes "consume_new_events io ipa fs (st, h) = (st1, h1)"
    and "\<not> (pf_ready \<and> objs h1 (youtube_ips st1) \<noteq> objs h1 (blocked_ips st1))"
  shows "fst (main_iteration io ipa fs pf_ready (st, h, w, msg)) = st1"
    and "fst (snd (main_iteration io ipa fs pf_ready (st, h, w, msg))) = h1"
    and "snd (snd (snd (main_iteration io ipa fs pf_ready (st, h, w, msg)))) = msg"
  using assms by (simp_all add: main_iteration_def Let_def split: prod.splits)

lemma main_iteration_idle_world:
  assumes "consume_new_events io ipa fs (st, h) = (st1, h1)"
    and "\<not> (pf_ready \<and> objs h1 (youtube_ips st1) \<noteq> objs h1 (blocked_ips st1))"
  shows "\<exists>cs snap. pf_calls (fst (snd (snd (main_iteration io ipa fs pf_ready (st, h, w, msg)))))
                      = pf_calls w @ cs
                  \<and> list_all (stat_cmd (anchor st1)) cs
                  \<and> written (fst (snd (snd (main_iteration io ipa fs pf_ready (st, h, w, msg)))))
                      = written w @ [(intermediate_log st1, snap)]"
proof (cases pf_ready)
  case False
  then have "fst (snd (snd (main_iteration io ipa fs pf_ready (st, h, w, msg))))
      = write_json w (intermediate_log st1)
          (build_snapshot st1 h1 (cumulative_blocked_packets st1 + 0) pf_ready msg)"
    using assms by (simp add: main_iteration_def Let_def)
  then have "pf_calls (fst (snd (snd (main_iteration io ipa fs pf_ready (st, h, w, msg)))))
                      = pf_calls w @ []"
    and "written (fst (snd (snd (main_iteration io ipa fs pf_ready (st, h, w, msg)))))
                      = written w @ [(intermediate_log st1,
             build_snapshot st1 h1 (cumulative_blocked_packets st1 + 0) pf_ready msg)]"
    by (simp_all add: write_json_def)
  then show ?thesis by (intro exI [of _ "[]"] exI conjI) simp_all
next
  case True
  obtain n w3 where r: "read_blocked_packet_count w (anchor st1) (label st1) = (n, w3)"
    by (cases "read_blocked_packet_count w (anchor st1) (label st1)") auto
  from read_blocked_packet_count_calls [OF r] obtain cs where
    cs: "pf_calls w3 = pf_calls w @ cs" "list_all (stat_cmd (anchor st1)) cs"
        "written w3 = written w"
    by blast
  have "fst (snd (snd (main_iteration io ipa fs pf_ready (st, h, w, msg))))
      = write_json w3 (intermediate_log st1)
          (build_snapshot st1 h1 (cumulative_blocked_packets st1 + n) pf_ready msg)"
    using assms True r by (simp add: main_iteration_def Let_def)
  then have "pf_calls (fst (snd (snd (main_iteration io ipa fs pf_ready (st, h, w, msg)))))
                      = pf_calls w @ cs"
    and "written (fst (snd (snd (main_iteration io ipa fs pf_ready (st, h, w, msg)))))
                      = written w @ [(intermediate_log st1,
             build_snapshot st1 h1 (cumulative_blocked_packets st1 + n) pf_ready msg)]"
    using cs by (simp_all add: write_json_def)
  with cs(2) show ?thesis by blast
qed

lemma main_iteration_attempt_world:
  assumes "consume_new_events io ipa fs (st, h) = (st1, h1)"
    and "pf_ready \<and> objs h1 (youtube_ips st1) \<noteq> objs h1 (blocked_ips st1)"
  shows "\<exists>cs. pf_calls (fst (snd (snd (main_iteration io ipa fs pf_ready (st, h, w, msg)))))
                 = pf_calls w @ cs
             \<and> list_ex (reload_cmd (anchor st)) cs"
proof -
  have tf: "tail_frame (st, h) (st1, h1)"
    using tail_frame_consume [of "(st, h)" io ipa fs] assms(1) by simp
  then have an: "anchor st1 = anchor st" by (simp add: tail_frame_def)
  obtain st2 h2 w2 m2 where c: "converge (st1, h1, w) = (st2, h2, w2, m2)"
    by (cases "converge (st1, h1, w)") auto
  from converge_calls [OF c] an obtain cs where
    cs: "pf_calls w2 = pf_calls w @ cs" "list_ex (reload_cmd (anchor st)) cs"
    by auto
  obtain n w3 where r: "read_blocked_packet_count w2 (anchor st2) (label st2) = (n, w3)"
    by (cases "read_blocked_packet_count w2 (anchor st2) (label st2)") auto
  from read_blocked_packet_count_calls [OF r] obtain cs3 where
    c3: "pf_calls w3 = pf_calls w2 @ cs3" by blast
  have "fst (snd (snd (main_iteration io ipa fs pf_ready (st, h, w, msg))))
      = write_json w3 (intermediate_log st2)
          (build_snapshot st2 h2 (cumulative_blocked_packets st2 + n) pf_ready m2)"
    using assms c r by (simp add: main_iteration_def Let_def)
  then have "pf_calls (fst (snd (snd (main_iteration io ipa fs pf_ready (st, h, w, msg)))))
                = pf_calls w @ (cs @ cs3)"
    using cs(1) c3 by (simp add: write_json_def)
  moreover have "list_ex (reload_cmd (anchor st)) (cs @ cs3)" using cs(2) by simp
  ultimately show ?thesis by blast
qed

text \<open>The invariant holds of the state \<open>main\<close> constructs and after every round.\<close>

lemma new_BlockerState_inv:
  "blocker_inv (new_BlockerState h target stamp ordered split log_dir anchor_name label_name)"
  by (simp add: blocker_inv_def new_BlockerState_def alloc_def Let_def)

lemma main_iteration_inv:
  assumes "blocker_inv (st, h)"
  shows "blocker_inv (fst (main_iteration io ipa fs pf_ready (st, h, w, msg)),
                      fst (snd (main_iteration io ipa fs pf_ready (st, h, w, msg))))"
proof -
  obtain st1 h1 where c: "consume_new_events io ipa fs (st, h) = (st1, h1)"
    by (cases "consume_new_events io ipa fs (st, h)") auto
  have tf: "tail_frame (st, h) (st1, h1)"
    using tail_frame_consume [of "(st, h)" io ipa fs] c by simp
  note i1 = tail_frame_inv(1) [OF tf assms]
  show ?thesis
  proof (cases "pf_ready \<and> objs h1 (youtube_ips st1) \<noteq> objs h1 (blocked_ips st1)")
    case False
    from main_iteration_idle(1,2) [OF c False, of w msg] i1 show ?thesis by simp
  next
    case True
    show ?thesis
    proof (cases rule: converge_cases [of w st1 h1])
      case (ok n w1 m w2)
      from main_iteration_fst(1,2) [OF c True ok(4), of msg] i1 show ?thesis
        by (simp add: blocker_inv_def)
    next
      case (fail n w1 m w2)
      from main_iteration_fst(1,2) [OF c True fail(4), of msg] i1 show ?thesis
        by (simp add: blocker_inv_def)
    qed
  qed
qed

text \<open>The first round over the unterminated log.\<close>

lemma first_read_target: "objs (snd first_read) (youtube_ips (fst first_read)) = {''142.250.1.1''}"
  by code_simp

lemma first_read_enforced: "objs (snd first_read) (blocked_ips (fst first_read)) = {}"
  by code_simp

lemma blocker0_enforced: "objs (snd blocker0) (blocked_ips (fst blocker0)) = {}"
  by code_simp

lemma quiet_pf_ok: "convergence_ok quiet_pf (fst first_read) (snd first_read)"
  by code_simp

lemma refusing_pf_fails: "\<not> convergence_ok refusing_pf (fst first_read) (snd first_read)"
  by code_simp

lemma first_round_inv: "blocker_inv (fst (first_round quiet_pf), fst (snd (first_round quiet_pf)))"
  unfolding first_round_def
  by (rule main_iteration_inv) (simp add: blocker0_def new_BlockerState_inv)

lemma first_round_converged:
  "objs (fst (snd (first_round quiet_pf))) (youtube_ips (fst (first_round quiet_pf)))
     = objs (fst (snd (first_round quiet_pf))) (blocked_ips (fst (first_round quiet_pf)))"
  by code_simp

lemma first_round_message:
  "snd (snd (snd (first_round quiet_pf))) = ''loaded 1 blocked IPs into com.apple/exp3_no_youtube''"
  by code_simp

lemma second_read_target:
  "objs (snd second_read) (youtube_ips (fst second_read))
     = objs (fst (snd (first_round quiet_pf))) (youtube_ips (fst (first_round quiet_pf)))"
  by code_simp

lemma second_round_calls:
  "pf_calls (fst (snd (snd (second_round quiet_pf))))
     = pf_calls (fst (snd (snd (first_round quiet_pf))))
       @ [([''pfctl'', ''-a'', ''com.apple/exp3_no_youtube'', ''-vvs'', ''rules''], None),
          ([''pfctl'', ''-a'', ''com.apple/exp3_no_youtube'', ''-s'', ''labels''], None)]"
  by code_simp

text \<open>
  C5. A round of the main loop that attempts a convergence (the packet filter is ready and
  the target set differs from the enforced set once the log is read). If
  \<open>apply_anchor_rules\<close> succeeds, \<open>blocked_ips\<close> is a new set object, different from the
  target set object, with the contents the target set has at that moment, and reading
  more of the log later, whatever it holds, does not change the enforced set. If it fails,
  \<open>blocked_ips\<close> is the set object it was, with the same contents, the two sets still
  differ, they still differ after any later reading of the log, and so the next round
  sends a reload command again. The invariant of the two sets holds after the round.
\<close>

theorem convergence_copy_or_retry:
  assumes "blocker_inv (st, h)"
    and "consume_new_events io ipa fs (st, h) = (st1, h1)"
    and "pf_ready" and "objs h1 (youtube_ips st1) \<noteq> objs h1 (blocked_ips st1)"
    and "main_iteration io ipa fs pf_ready (st, h, w, msg) = (st', h', w', msg')"
  shows "(convergence_ok w st1 h1 \<longrightarrow>
            blocked_ips st' \<noteq> youtube_ips st'
            \<and> objs h' (blocked_ips st') = objs h' (youtube_ips st')
            \<and> objs h' (youtube_ips st') = objs h1 (youtube_ips st1)
            \<and> (\<forall>fs2. objs (snd (consume_new_events io ipa fs2 (st', h')))
                        (blocked_ips (fst (consume_new_events io ipa fs2 (st', h'))))
                      = objs h' (blocked_ips st')))
       \<and> (\<not> convergence_ok w st1 h1 \<longrightarrow>
            blocked_ips st' = blocked_ips st
            \<and> objs h' (blocked_ips st') = objs h (blocked_ips st)
            \<and> objs h' (youtube_ips st') \<noteq> objs h' (blocked_ips st')
            \<and> (\<forall>fs2. objs (snd (consume_new_events io ipa fs2 (st', h')))
                        (youtube_ips (fst (consume_new_events io ipa fs2 (st', h'))))
                      \<noteq> objs (snd (consume_new_events io ipa fs2 (st', h')))
                          (blocked_ips (fst (consume_new_events io ipa fs2 (st', h')))))
            \<and> (\<forall>fs2 w2 msg2. \<exists>cs.
                  pf_calls (fst (snd (snd (main_iteration io ipa fs2 pf_ready (st', h', w2, msg2)))))
                    = pf_calls w2 @ cs
                  \<and> list_ex (reload_cmd (anchor st')) cs))
       \<and> blocker_inv (st', h')"
proof -
  have tf: "tail_frame (st, h) (st1, h1)"
    using tail_frame_consume [of "(st, h)" io ipa fs] assms(2) by simp
  note i1 = tail_frame_inv [OF tf assms(1)]
  from i1(1) have i: "youtube_ips st1 \<noteq> blocked_ips st1" "youtube_ips st1 < next_ref h1"
    "blocked_ips st1 < next_ref h1" "objs h1 (blocked_ips st1) \<subseteq> objs h1 (youtube_ips st1)"
    by (simp_all add: blocker_inv_def)
  have b1: "blocked_ips st1 = blocked_ips st" using tf by (simp add: tail_frame_def)
  have g: "pf_ready \<and> objs h1 (youtube_ips st1) \<noteq> objs h1 (blocked_ips st1)"
    using assms(3,4) by simp
  have future: "tail_frame (st', h') (consume_new_events io ipa fs2 (st', h'))" for fs2
    by (rule tail_frame_consume)
  show ?thesis
  proof (cases rule: converge_cases [of w st1 h1])
    case (ok n w1 m w2)
    from main_iteration_fst(1,2) [OF assms(2) g ok(4), of msg] assms(5)
    have s: "st' = st1 \<lparr> cumulative_blocked_packets := cumulative_blocked_packets st1 + n,
                          blocked_ips := next_ref h1 \<rparr>"
      and hh: "h' = h1 \<lparr> objs := (objs h1) (next_ref h1 := objs h1 (youtube_ips st1)),
                         next_ref := next_ref h1 + 1 \<rparr>"
      by simp_all
    have a1: "blocked_ips st' \<noteq> youtube_ips st'" using s i(2) by simp
    have a2: "objs h' (blocked_ips st') = objs h1 (youtube_ips st1)" using s hh by simp
    have a3: "objs h' (youtube_ips st') = objs h1 (youtube_ips st1)" using s hh i(2) by simp
    have a4: "objs (snd (consume_new_events io ipa fs2 (st', h')))
                        (blocked_ips (fst (consume_new_events io ipa fs2 (st', h'))))
                      = objs h' (blocked_ips st')" for fs2
      using future [of fs2] a1 unfolding tail_frame_def by simp
    have inv: "blocker_inv (st', h')"
      unfolding blocker_inv_def using a1 a2 a3 s hh i(2) by simp
    from ok(3) a1 a2 a3 a4 inv show ?thesis by simp
  next
    case (fail n w1 m w2)
    from main_iteration_fst(1,2) [OF assms(2) g fail(4), of msg] assms(5)
    have s: "st' = st1 \<lparr> cumulative_blocked_packets := cumulative_blocked_packets st1 + n \<rparr>"
      and hh: "h' = h1"
      by simp_all
    have c1: "blocked_ips st' = blocked_ips st" using s b1 by simp
    have c2: "objs h' (blocked_ips st') = objs h (blocked_ips st)" using s hh i1(2) by simp
    have c3: "objs h' (youtube_ips st') \<noteq> objs h' (blocked_ips st')" using s hh assms(4) by simp
    have sub: "objs h' (blocked_ips st') \<subseteq> objs h' (youtube_ips st')" using s hh i(4) by simp
    have ne: "youtube_ips st' \<noteq> blocked_ips st'" using s i(1) by simp
    have c4: "objs (snd (consume_new_events io ipa fs2 (st', h')))
                        (youtube_ips (fst (consume_new_events io ipa fs2 (st', h'))))
                      \<noteq> objs (snd (consume_new_events io ipa fs2 (st', h')))
                          (blocked_ips (fst (consume_new_events io ipa fs2 (st', h'))))" for fs2
    proof -
      let ?r = "consume_new_events io ipa fs2 (st', h')"
      from future [of fs2] have f: "youtube_ips (fst ?r) = youtube_ips st'"
        "blocked_ips (fst ?r) = blocked_ips st'"
        "objs (snd ?r) (blocked_ips st') = objs h' (blocked_ips st')"
        "objs h' (youtube_ips st') \<subseteq> objs (snd ?r) (youtube_ips st')"
        using ne unfolding tail_frame_def by simp_all
      from f(3,4) sub c3 have "objs (snd ?r) (youtube_ips st') \<noteq> objs (snd ?r) (blocked_ips st')"
        by auto
      with f(1,2) show ?thesis by simp
    qed
    have c5: "\<exists>cs. pf_calls (fst (snd (snd (main_iteration io ipa fs2 pf_ready (st', h', w2, msg2)))))
                    = pf_calls w2 @ cs
                  \<and> list_ex (reload_cmd (anchor st')) cs" for fs2 w2 msg2
    proof -
      let ?r = "consume_new_events io ipa fs2 (st', h')"
      have e: "consume_new_events io ipa fs2 (st', h') = (fst ?r, snd ?r)" by simp
      have g2: "pf_ready \<and> objs (snd ?r) (youtube_ips (fst ?r)) \<noteq> objs (snd ?r) (blocked_ips (fst ?r))"
        using assms(3) c4 [of fs2] by simp
      show ?thesis by (rule main_iteration_attempt_world [OF e g2])
    qed
    have inv: "blocker_inv (st', h')"
      unfolding blocker_inv_def using s hh i by simp
    from fail(3) c1 c2 c3 c4 c5 inv show ?thesis by simp
  qed
qed

theorem convergence_copy_or_retry_witness:
  "blocker_inv (fst blocker0, snd blocker0)
   \<and> objs (snd first_read) (youtube_ips (fst first_read))
       \<noteq> objs (snd first_read) (blocked_ips (fst first_read))
   \<and> convergence_ok quiet_pf (fst first_read) (snd first_read)
   \<and> blocked_ips (fst (first_round quiet_pf)) \<noteq> youtube_ips (fst (first_round quiet_pf))
   \<and> objs (fst (snd (first_round quiet_pf))) (blocked_ips (fst (first_round quiet_pf)))
       = {''142.250.1.1''}
   \<and> objs (fst (snd (first_round quiet_pf))) (youtube_ips (fst (first_round quiet_pf)))
       = {''142.250.1.1''}
   \<and> \<not> convergence_ok refusing_pf (fst first_read) (snd first_read)
   \<and> blocked_ips (fst (first_round refusing_pf)) = blocked_ips (fst blocker0)
   \<and> objs (fst (snd (first_round refusing_pf))) (blocked_ips (fst (first_round refusing_pf)))
       = {}
   \<and> objs (fst (snd (first_round refusing_pf))) (youtube_ips (fst (first_round refusing_pf)))
       \<noteq> objs (fst (snd (first_round refusing_pf))) (blocked_ips (fst (first_round refusing_pf)))"
proof -
  have a: "blocker_inv (fst blocker0, snd blocker0)"
    using new_BlockerState_inv by (simp add: blocker0_def)
  have b: "consume_new_events ascii_text ipv4_text (one_file unterminated_log) (fst blocker0, snd blocker0)
             = (fst first_read, snd first_read)"
    by (simp add: first_read_def)
  have d: "objs (snd first_read) (youtube_ips (fst first_read))
             \<noteq> objs (snd first_read) (blocked_ips (fst first_read))"
    by (simp add: first_read_target first_read_enforced)
  have e: "main_iteration ascii_text ipv4_text (one_file unterminated_log) True
             (fst blocker0, snd blocker0, w, [])
           = (fst (first_round w), fst (snd (first_round w)), fst (snd (snd (first_round w))),
              snd (snd (snd (first_round w))))" for w
    by (simp add: first_round_def)
  note good = convergence_copy_or_retry [OF a b TrueI d e [of quiet_pf]]
  note bad = convergence_copy_or_retry [OF a b TrueI d e [of refusing_pf]]
  from good quiet_pf_ok have g:
    "blocked_ips (fst (first_round quiet_pf)) \<noteq> youtube_ips (fst (first_round quiet_pf))"
    "objs (fst (snd (first_round quiet_pf))) (blocked_ips (fst (first_round quiet_pf)))
       = {''142.250.1.1''}"
    "objs (fst (snd (first_round quiet_pf))) (youtube_ips (fst (first_round quiet_pf)))
       = {''142.250.1.1''}"
    by (simp_all add: first_read_target)
  from bad refusing_pf_fails have f1:
    "blocked_ips (fst (first_round refusing_pf)) = blocked_ips (fst blocker0)"
    by blast
  from bad refusing_pf_fails have
    "objs (fst (snd (first_round refusing_pf))) (blocked_ips (fst (first_round refusing_pf)))
       = objs (snd blocker0) (blocked_ips (fst blocker0))"
    by blast
  then have f2:
    "objs (fst (snd (first_round refusing_pf))) (blocked_ips (fst (first_round refusing_pf)))
       = {}"
    using blocker0_enforced by (rule trans)
  from bad refusing_pf_fails have f3:
    "objs (fst (snd (first_round refusing_pf))) (youtube_ips (fst (first_round refusing_pf)))
       \<noteq> objs (fst (snd (first_round refusing_pf))) (blocked_ips (fst (first_round refusing_pf)))"
    by blast
  show ?thesis using a d quiet_pf_ok refusing_pf_fails g f1 f2 f3 by blast
qed

text \<open>
  C7. A round that starts with the enforced set equal to the target set, as a successful
  convergence leaves them, and in which reading the log leaves the target set as it was:
  the state is the one reading the log gives, the enforced set, the packet total and the
  status message are unchanged, every command sent to the packet filter reads counters
  and none reloads or flushes rules, one snapshot is written, and the sets are equal
  again at the end, so the same holds of the round after it.
\<close>

theorem convergence_idempotent:
  assumes "blocker_inv (st, h)"
    and "objs h (youtube_ips st) = objs h (blocked_ips st)"
    and "consume_new_events io ipa fs (st, h) = (st1, h1)"
    and "objs h1 (youtube_ips st1) = objs h (youtube_ips st)"
    and "main_iteration io ipa fs pf_ready (st, h, w, msg) = (st', h', w', msg')"
  shows "st' = st1 \<and> h' = h1 \<and> msg' = msg
       \<and> blocked_ips st' = blocked_ips st
       \<and> objs h' (blocked_ips st') = objs h (blocked_ips st)
       \<and> cumulative_blocked_packets st' = cumulative_blocked_packets st
       \<and> (\<exists>cs. pf_calls w' = pf_calls w @ cs
               \<and> list_all (stat_cmd (anchor st)) cs
               \<and> \<not> list_ex (reload_cmd (anchor st)) cs)
       \<and> (\<exists>snap. written w' = written w @ [(intermediate_log st, snap)])
       \<and> blocker_inv (st', h')
       \<and> objs h' (youtube_ips st') = objs h' (blocked_ips st')"
proof -
  have tf: "tail_frame (st, h) (st1, h1)"
    using tail_frame_consume [of "(st, h)" io ipa fs] assms(3) by simp
  note i1 = tail_frame_inv [OF tf assms(1)]
  from tf have f: "blocked_ips st1 = blocked_ips st" "anchor st1 = anchor st"
    "intermediate_log st1 = intermediate_log st"
    "cumulative_blocked_packets st1 = cumulative_blocked_packets st"
    by (simp_all add: tail_frame_def)
  have e1: "objs h1 (youtube_ips st1) = objs h1 (blocked_ips st1)"
    using i1(2) assms(2,4) by simp
  then have g: "\<not> (pf_ready \<and> objs h1 (youtube_ips st1) \<noteq> objs h1 (blocked_ips st1))"
    by simp
  from main_iteration_idle [OF assms(3) g, of w msg] assms(5)
  have s: "st' = st1" "h' = h1" "msg' = msg" by simp_all
  from main_iteration_idle_world [OF assms(3) g, of w msg] assms(5)
  obtain cs snap where w: "pf_calls w' = pf_calls w @ cs" "list_all (stat_cmd (anchor st)) cs"
    "written w' = written w @ [(intermediate_log st, snap)]"
    using f(2,3) by auto
  from w(1,2) list_all_stat_no_reload [OF w(2)]
  have c: "\<exists>cs. pf_calls w' = pf_calls w @ cs
               \<and> list_all (stat_cmd (anchor st)) cs
               \<and> \<not> list_ex (reload_cmd (anchor st)) cs"
    by blast
  from w(3) have d: "\<exists>snap. written w' = written w @ [(intermediate_log st, snap)]" by blast
  show ?thesis using s f(1,4) i1 e1 c d by simp
qed

theorem convergence_idempotent_witness:
  "blocker_inv (fst (first_round quiet_pf), fst (snd (first_round quiet_pf)))
   \<and> objs (fst (snd (first_round quiet_pf))) (youtube_ips (fst (first_round quiet_pf)))
       = objs (fst (snd (first_round quiet_pf))) (blocked_ips (fst (first_round quiet_pf)))
   \<and> objs (snd second_read) (youtube_ips (fst second_read))
       = objs (fst (snd (first_round quiet_pf))) (youtube_ips (fst (first_round quiet_pf)))
   \<and> blocked_ips (fst (second_round quiet_pf)) = blocked_ips (fst (first_round quiet_pf))
   \<and> cumulative_blocked_packets (fst (second_round quiet_pf))
       = cumulative_blocked_packets (fst (first_round quiet_pf))
   \<and> snd (snd (snd (second_round quiet_pf)))
       = ''loaded 1 blocked IPs into com.apple/exp3_no_youtube''
   \<and> (\<exists>cs. pf_calls (fst (snd (snd (second_round quiet_pf))))
               = pf_calls (fst (snd (snd (first_round quiet_pf)))) @ cs
             \<and> \<not> list_ex (reload_cmd (anchor (fst (first_round quiet_pf)))) cs)
   \<and> pf_calls (fst (snd (snd (second_round quiet_pf))))
       = pf_calls (fst (snd (snd (first_round quiet_pf))))
         @ [([''pfctl'', ''-a'', ''com.apple/exp3_no_youtube'', ''-vvs'', ''rules''], None),
            ([''pfctl'', ''-a'', ''com.apple/exp3_no_youtube'', ''-s'', ''labels''], None)]"
proof -
  let ?st = "fst (first_round quiet_pf)"
  let ?h = "fst (snd (first_round quiet_pf))"
  let ?w = "fst (snd (snd (first_round quiet_pf)))"
  let ?m = "snd (snd (snd (first_round quiet_pf)))"
  have c: "consume_new_events ascii_text ipv4_text (one_file unterminated_log) (?st, ?h)
             = (fst second_read, snd second_read)"
    by (simp add: second_read_def)
  have e: "main_iteration ascii_text ipv4_text (one_file unterminated_log) True (?st, ?h, ?w, ?m)
           = (fst (second_round quiet_pf), fst (snd (second_round quiet_pf)),
              fst (snd (snd (second_round quiet_pf))), snd (snd (snd (second_round quiet_pf))))"
    by (simp add: second_round_def)
  note idle = convergence_idempotent [OF first_round_inv first_round_converged c
                second_read_target e]
  from idle have m: "snd (snd (snd (second_round quiet_pf))) = ?m" by blast
  have m': "snd (snd (snd (second_round quiet_pf)))
              = ''loaded 1 blocked IPs into com.apple/exp3_no_youtube''"
    using m first_round_message by (rule trans)
  from idle have r: "\<exists>cs. pf_calls (fst (snd (snd (second_round quiet_pf)))) = pf_calls ?w @ cs
             \<and> \<not> list_ex (reload_cmd (anchor ?st)) cs"
    by blast
  from idle have b: "blocked_ips (fst (second_round quiet_pf)) = blocked_ips ?st"
    "cumulative_blocked_packets (fst (second_round quiet_pf)) = cumulative_blocked_packets ?st"
    by blast+
  show ?thesis
    using first_round_inv first_round_converged second_read_target b m' r second_round_calls
    by blast
qed

end
